theory Spec2Isabelle
  imports Complex_Main "HOL-Library.AList"
begin

section \<open>The idle-transaction controller of the Tracing integration\<close>

text \<open>
  A shallow embedding of \<^verbatim>\<open>packages/apm/src/integrations/tracing.ts\<close>. The class
  \<^verbatim>\<open>Tracing\<close> keeps all of its state in static fields; the record \<open>tracing\<close> below holds
  those fields together with the part of the host that the code drives: the table of
  pending timers (\<^verbatim>\<open>setTimeout\<close>/\<^verbatim>\<open>clearTimeout\<close>), the clock, the source of
  \<^verbatim>\<open>Math.random()\<close>, and the trace of calls made on the hub and on spans. Every
  method becomes a function from a state to a result and a new state.

  Numbers are JavaScript doubles in the source; they are modelled by rationals (durations,
  timestamps, sample rates) and naturals (activity ids, timer handles), so \<^verbatim>\<open>NaN\<close> and
  rounding are outside the model.
\<close>

subsection \<open>Data\<close>

type_synonym span = nat
  \<comment> \<open>a span object, by identity\<close>

datatype jsval = JNum rat | JStr string | JBool bool

record spanContext =
  op :: "string option"
  description :: "string option"
  sampled :: "bool option"
  transaction :: "string option"

record tracingOptions =
  idleTimeout :: rat
  maxTransactionDuration :: rat
  tracesSampleRate :: "rat option"
    \<comment> \<open>\<open>None\<close>: the configured value is not of type \<^verbatim>\<open>number\<close>\<close>
  discardBackgroundSpans :: bool
  startTransactionOnLocationChange :: bool
  traceXHR :: bool
  traceFetch :: bool

record activity =
  name :: string
  span :: "span option"

datatype callback =
    CbPopActivity nat "(string \<times> jsval) list option"
  | CbFinishIdle

record timer =
  handle :: nat
  scheduledAt :: rat
  delay :: "rat option"
    \<comment> \<open>the second argument of \<^verbatim>\<open>setTimeout\<close>; \<open>None\<close> when \<^verbatim>\<open>undefined\<close> is passed\<close>
  callback :: callback

datatype hubGetter = ReturnsHub | ReturnsNothing
  \<comment> \<open>what the function stored in \<^verbatim>\<open>_getCurrentHub\<close> returns when called\<close>

datatype call =
    HubStartSpan spanContext bool "span option" span
      \<comment> \<open>context, the root flag, the parent, the span returned\<close>
  | ScopeSetSpan span
  | ScopeSetTransaction string
  | SpanSetData span string jsval
  | SpanSetHttpStatus span jsval
  | SpanSetStatus span jsval
  | SpanFinish span bool
      \<comment> \<open>the flag is \<^verbatim>\<open>useLastSpanTimestamp\<close>\<close>

datatype handler = HandlerXHR | HandlerFetch | HandlerHistory

record tracing =
  enabled :: "bool option"
  options :: "tracingOptions option"
  getCurrentHub :: "hubGetter option"
  activeTransaction :: "span option"
  currentIndex :: nat
  activities :: "(nat \<times> activity) list"
  debounce :: nat
  timers :: "timer list"
  nextTimer :: nat
  now :: rat
  randomSource :: "nat \<Rightarrow> rat"
  randomDraws :: nat
  calls :: "call list"
  nextSpan :: span
  scopeSpan :: "span option"
  handlers :: "handler list"
  visibilityListener :: bool
  eventProcessors :: "hubGetter list"
    \<comment> \<open>the installed event processors, each by the hub getter its closure holds\<close>

record event =
  type :: "string option"
  timestamp :: "rat option"
  start_timestamp :: "rat option"

datatype error = TypeError

text \<open>The static initialisers of the class, before any constructor has run.\<close>

definition initial :: "(nat \<Rightarrow> rat) \<Rightarrow> tracing" where
  "initial rnd =
     \<lparr>enabled = None, options = None, getCurrentHub = None, activeTransaction = None,
      currentIndex = 1, activities = [], debounce = 0, timers = [], nextTimer = 1,
      now = 0, randomSource = rnd, randomDraws = 0, calls = [], nextSpan = 0,
      scopeSpan = None, handlers = [], visibilityListener = False,
      eventProcessors = []\<rparr>"

text \<open>The defaults of the constructor (without the origin patterns, which only the request
  adapters read).\<close>

definition defaults :: tracingOptions where
  "defaults =
     \<lparr>idleTimeout = 500, maxTransactionDuration = 600, tracesSampleRate = Some 1,
      discardBackgroundSpans = True, startTransactionOnLocationChange = True,
      traceXHR = True, traceFetch = True\<rparr>"

subsection \<open>The host: timers, the hub, spans\<close>

definition setTimeout :: "callback \<Rightarrow> rat option \<Rightarrow> tracing \<Rightarrow> nat \<times> tracing" where
  "setTimeout cb d s =
     (nextTimer s,
      s\<lparr>timers := timers s @ [\<lparr>handle = nextTimer s, scheduledAt = now s, delay = d, callback = cb\<rparr>],
        nextTimer := Suc (nextTimer s)\<rparr>)"

definition clearTimeout :: "nat \<Rightarrow> tracing \<Rightarrow> tracing" where
  "clearTimeout h s = s\<lparr>timers := filter (\<lambda>t. handle t \<noteq> h) (timers s)\<rparr>"

definition record_call :: "call \<Rightarrow> tracing \<Rightarrow> tracing" where
  "record_call c s = s\<lparr>calls := calls s @ [c]\<rparr>"

text \<open>
  Modelled from the spec: the hub and its scope are not part of the source file. The spec
  asks of them "starting a span (optionally flagged as a transaction root) and binding the
  active transaction onto the ambient scope", and a span started without the root flag is
  "a child span under the active transaction", that is, under the span bound on the scope.
\<close>

definition hubStartSpan :: "spanContext \<Rightarrow> bool \<Rightarrow> tracing \<Rightarrow> span \<times> tracing" where
  "hubStartSpan ctx forceNoChild s =
     (nextSpan s,
      (record_call
         (HubStartSpan ctx forceNoChild (if forceNoChild then None else scopeSpan s) (nextSpan s)) s)
        \<lparr>nextSpan := Suc (nextSpan s)\<rparr>)"

definition scopeSetSpan :: "span \<Rightarrow> tracing \<Rightarrow> tracing" where
  "scopeSetSpan sp s = (record_call (ScopeSetSpan sp) s)\<lparr>scopeSpan := Some sp\<rparr>"

subsection \<open>The enablement gate\<close>

definition isEnabled :: "tracing \<Rightarrow> bool \<times> tracing" where
  "isEnabled s =
     (case enabled s of
        Some b \<Rightarrow> (b, s)
      | None \<Rightarrow>
          (case options s of
             None \<Rightarrow> (False, s)
           | Some opt \<Rightarrow>
               (case tracesSampleRate opt of
                  None \<Rightarrow> (False, s)
                | Some r \<Rightarrow>
                    (let u = randomSource s (randomDraws s);
                         b = (if u > r then False else True)
                     in (b, s\<lparr>enabled := Some b, randomDraws := Suc (randomDraws s)\<rparr>)))))"

subsection \<open>The controller\<close>

definition finishIdleTransaction :: "tracing \<Rightarrow> tracing" where
  "finishIdleTransaction s =
     (case activeTransaction s of
        Some active \<Rightarrow> record_call (SpanFinish active True) s
      | None \<Rightarrow> s)"

definition setTransactionStatus :: "string \<Rightarrow> tracing \<Rightarrow> tracing" where
  "setTransactionStatus status s =
     (case activeTransaction s of
        Some active \<Rightarrow> record_call (SpanSetStatus active (JStr status)) s
      | None \<Rightarrow> s)"

definition updateTransactionName :: "string \<Rightarrow> tracing \<Rightarrow> tracing" where
  "updateTransactionName nm s =
     (case getCurrentHub s of
        Some ReturnsHub \<Rightarrow> record_call (ScopeSetTransaction nm) s
      | _ \<Rightarrow> s)"

definition deadlineExceeded :: "(string \<times> jsval) list" where
  "deadlineExceeded = [(''autoPop'', JBool True), (''status'', JStr ''deadline_exceeded'')]"

definition pushActivity ::
  "string \<Rightarrow> spanContext option \<Rightarrow> rat option \<Rightarrow> tracing \<Rightarrow> nat \<times> tracing" where
  "pushActivity nm spanContext autoPopAfter s =
     (let (en, s1) = isEnabled s in
      if \<not> en then (0, s1)
      else if activeTransaction s1 = None then (0, s1)
      else
        let s2 = clearTimeout (debounce s1) s1;
            s3 = (case (spanContext, getCurrentHub s2) of
                    (Some ctx, Some getter) \<Rightarrow>
                      (case getter of
                         ReturnsHub \<Rightarrow>
                           (let (sp, s') = hubStartSpan ctx False s2
                            in s'\<lparr>activities :=
                                  AList.update (currentIndex s') \<lparr>name = nm, span = Some sp\<rparr>
                                    (activities s')\<rparr>)
                       | ReturnsNothing \<Rightarrow> s2)
                  | _ \<Rightarrow>
                      s2\<lparr>activities :=
                          AList.update (currentIndex s2) \<lparr>name = nm, span = None\<rparr>
                            (activities s2)\<rparr>);
            s4 = (case autoPopAfter of
                    Some d \<Rightarrow>
                      snd (setTimeout (CbPopActivity (currentIndex s3) (Some deadlineExceeded))
                             (Some d) s3)
                  | None \<Rightarrow> s3)
        in (currentIndex s4, s4\<lparr>currentIndex := Suc (currentIndex s4)\<rparr>))"

fun setSpanData :: "span \<Rightarrow> (string \<times> jsval) list \<Rightarrow> tracing \<Rightarrow> tracing" where
  "setSpanData sp [] s = s"
| "setSpanData sp ((key, v) # kvs) s =
     (let s1 = record_call (SpanSetData sp key v) s;
          s2 = (if key = ''status_code'' then record_call (SpanSetHttpStatus sp v) s1 else s1);
          s3 = (if key = ''status'' then record_call (SpanSetStatus sp v) s2 else s2)
      in setSpanData sp kvs s3)"

definition popActivity :: "nat \<Rightarrow> (string \<times> jsval) list option \<Rightarrow> tracing \<Rightarrow> tracing" where
  "popActivity ident spanData s =
     (let (en, s1) = isEnabled s in
      if \<not> en \<or> ident = 0 then s1
      else
        let s2 = (case map_of (activities s1) ident of
                    Some act \<Rightarrow>
                      (let s' = (case span act of
                                   Some sp \<Rightarrow>
                                     record_call (SpanFinish sp False)
                                       (case spanData of
                                          Some d \<Rightarrow> setSpanData sp d s1
                                        | None \<Rightarrow> s1)
                                 | None \<Rightarrow> s1)
                       in s'\<lparr>activities := AList.delete ident (activities s')\<rparr>)
                  | None \<Rightarrow> s1);
            count = length (activities s2);
            s3 = clearTimeout (debounce s2) s2
        in if count = 0 \<and> activeTransaction s3 \<noteq> None then
             (let timeout = (case options s3 of None \<Rightarrow> None | Some opt \<Rightarrow> Some (idleTimeout opt));
                  (h, s4) = setTimeout CbFinishIdle timeout s3
              in s4\<lparr>debounce := h\<rparr>)
           else s3)"

definition startIdleTransaction ::
  "string \<Rightarrow> spanContext option \<Rightarrow> tracing \<Rightarrow> span option \<times> tracing" where
  "startIdleTransaction nm spanContext s =
     (let (en, s1) = isEnabled s in
      if \<not> en then (None, s1)
      else
        let s2 = finishIdleTransaction s1 in
        (case getCurrentHub s2 of
           None \<Rightarrow> (None, s2)
         | Some ReturnsNothing \<Rightarrow> (None, s2)
         | Some ReturnsHub \<Rightarrow>
             (let ctx = (case spanContext of
                           Some c \<Rightarrow> c\<lparr>transaction := Some nm\<rparr>
                         | None \<Rightarrow> \<lparr>op = None, description = None, sampled = None,
                                     transaction = Some nm\<rparr>);
                  (sp, s3) = hubStartSpan ctx True s2;
                  s4 = s3\<lparr>activeTransaction := Some sp\<rparr>;
                  s5 = scopeSetSpan sp s4;
                  (ident, s6) = pushActivity ''idleTransactionStarted'' None None s5;
                  d = (case options s6 of
                         None \<Rightarrow> 100
                       | Some opt \<Rightarrow> if idleTimeout opt \<noteq> 0 then idleTimeout opt else 100);
                  (h, s7) = setTimeout (CbPopActivity ident None) (Some d) s6
              in (Some sp, s7))))"

subsection \<open>Timers firing, the visibility listener, set-up\<close>

text \<open>
  A pending timer that fires leaves the table and runs its callback. The model lets a
  pending timer fire at any moment, which includes every moment at which the host may
  fire it.
\<close>

definition fireTimer :: "nat \<Rightarrow> tracing \<Rightarrow> tracing" where
  "fireTimer h s =
     (case find (\<lambda>t. handle t = h) (timers s) of
        None \<Rightarrow> s
      | Some t \<Rightarrow>
          (let s1 = s\<lparr>timers := filter (\<lambda>t. handle t \<noteq> h) (timers s)\<rparr>
           in case callback t of
                CbPopActivity ident spanData \<Rightarrow> popActivity ident spanData s1
              | CbFinishIdle \<Rightarrow> finishIdleTransaction s1))"

definition tick :: "rat \<Rightarrow> tracing \<Rightarrow> tracing" where
  "tick dt s = s\<lparr>now := now s + dt\<rparr>"

text \<open>The body of the \<^verbatim>\<open>visibilitychange\<close> listener; the argument is \<^verbatim>\<open>document.hidden\<close>.\<close>

definition onVisibilityChange :: "bool \<Rightarrow> tracing \<Rightarrow> tracing" where
  "onVisibilityChange hidden s =
     (if hidden \<and> activeTransaction s \<noteq> None
      then s\<lparr>activeTransaction := None, activities := []\<rparr>
      else s)"

text \<open>The constructor stores the defaults overlaid with the options given; the argument is
  that overlay.\<close>

definition construct :: "tracingOptions \<Rightarrow> tracing \<Rightarrow> tracing" where
  "construct opts s = s\<lparr>options := Some opts\<rparr>"

definition addInstrumentationHandler :: "handler \<Rightarrow> tracing \<Rightarrow> tracing" where
  "addInstrumentationHandler h s = s\<lparr>handlers := handlers s @ [h]\<rparr>"

definition pageload :: spanContext where
  "pageload = \<lparr>op = Some ''pageload'', description = None, sampled = Some True, transaction = None\<rparr>"

definition navigation :: spanContext where
  "navigation = \<lparr>op = Some ''navigation'', description = None, sampled = Some True, transaction = None\<rparr>"

text \<open>
  \<^verbatim>\<open>setupOnce\<close>: the arguments are the hub getter, \<^verbatim>\<open>global.location.href\<close> (\<open>None\<close>
  when there is no location), whether \<^verbatim>\<open>global.document\<close> exists and whether the host has
  a native fetch. Reading a field of \<^verbatim>\<open>Tracing.options\<close> while it is undefined throws; the
  result then carries the error and the state reached.
\<close>

definition setupOnce ::
  "hubGetter \<Rightarrow> string option \<Rightarrow> bool \<Rightarrow> bool \<Rightarrow> tracing \<Rightarrow> error option \<times> tracing" where
  "setupOnce getter href hasDocument nativeFetch s =
     (let s0 = s\<lparr>getCurrentHub := Some getter\<rparr>;
          (en, s1) = isEnabled s0 in
      if \<not> en then (None, s1)
      else
        (case options s1 of
           None \<Rightarrow> (Some TypeError, s1)
         | Some opt \<Rightarrow>
             (let s2 = (if traceXHR opt then addInstrumentationHandler HandlerXHR s1 else s1);
                  s3 = (if traceFetch opt \<and> nativeFetch
                        then addInstrumentationHandler HandlerFetch s2 else s2);
                  s4 = (if startTransactionOnLocationChange opt
                        then addInstrumentationHandler HandlerHistory s3 else s3);
                  s5 = (case href of
                          None \<Rightarrow> s4
                        | Some url \<Rightarrow>
                            if url \<noteq> [] then snd (startIdleTransaction url (Some pageload) s4)
                            else s4);
                  s6 = (if discardBackgroundSpans opt \<and> hasDocument
                        then s5\<lparr>visibilityListener := True\<rparr> else s5)
              in (None, s6\<lparr>eventProcessors := eventProcessors s6 @ [getter]\<rparr>))))"

definition historyCallback :: "string option \<Rightarrow> tracing \<Rightarrow> error option \<times> tracing" where
  "historyCallback href s =
     (case options s of
        None \<Rightarrow> (Some TypeError, s)
      | Some opt \<Rightarrow>
          (case href of
             None \<Rightarrow> (None, s)
           | Some url \<Rightarrow>
               if startTransactionOnLocationChange opt
               then (None, snd (startIdleTransaction url (Some navigation) s))
               else (None, s)))"

subsection \<open>The event filter\<close>

definition truthy :: "rat option \<Rightarrow> bool" where
  "truthy v = (case v of None \<Rightarrow> False | Some x \<Rightarrow> x \<noteq> 0)"

text \<open>
  The global event processor that \<^verbatim>\<open>setupOnce\<close> installs. Its first argument is the hub
  getter that this \<^verbatim>\<open>setupOnce\<close> was given and that the processor calls on every event:
  when the getter returns no hub, reading \<^verbatim>\<open>getIntegration\<close> of it throws. The second
  argument says whether the hub has the Tracing integration
  (\<^verbatim>\<open>getCurrentHub().getIntegration(Tracing)\<close>). The result is \<open>Inr None\<close> when the event
  is dropped and \<open>Inr (Some e)\<close> when it is passed on.
\<close>

definition eventProcessor ::
  "hubGetter \<Rightarrow> bool \<Rightarrow> event \<Rightarrow> tracing \<Rightarrow> (error + event option) \<times> tracing" where
  "eventProcessor getter self e s =
     (case getter of
        ReturnsNothing \<Rightarrow> (Inl TypeError, s)
      | ReturnsHub \<Rightarrow>
          if \<not> self then (Inr (Some e), s)
          else
            let (en, s1) = isEnabled s in
            if en then
              (case options s1 of
                 None \<Rightarrow> (Inl TypeError, s1)
               | Some opt \<Rightarrow>
                   (let isOutdatedTransaction =
                          (truthy (timestamp e) \<and> truthy (start_timestamp e) \<and>
                           (the (timestamp e) - the (start_timestamp e) > maxTransactionDuration opt \<or>
                            the (timestamp e) - the (start_timestamp e) < 0))
                    in if maxTransactionDuration opt \<noteq> 0 \<and> type e = Some ''transaction'' \<and>
                          isOutdatedTransaction
                       then (Inr None, s1)
                       else (Inr (Some e), s1)))
            else (Inr (Some e), s1))"

text \<open>
  The host hands an event to the installed processors in turn, each one receiving what
  the one before it passed on, until one of them drops the event or throws.
\<close>

fun notifyEventProcessors ::
  "hubGetter list \<Rightarrow> bool \<Rightarrow> event \<Rightarrow> tracing \<Rightarrow> (error + event option) \<times> tracing" where
  "notifyEventProcessors [] self e s = (Inr (Some e), s)"
| "notifyEventProcessors (g # gs) self e s =
     (case eventProcessor g self e s of
        (Inr (Some e'), s') \<Rightarrow> notifyEventProcessors gs self e' s'
      | (r, s') \<Rightarrow> (r, s'))"

subsection \<open>Runs of the controller\<close>

text \<open>
  Everything that can happen to the controller: calls of its public methods, by the host
  or by the request adapters, and the host's own events. A listener or handler only runs
  once \<^verbatim>\<open>setupOnce\<close> has installed it.
\<close>

datatype action =
    Construct tracingOptions
  | SetupOnce hubGetter "string option" bool bool
  | StartIdleTransaction string "spanContext option"
  | FinishIdleTransaction
  | SetTransactionStatus string
  | UpdateTransactionName string
  | PushActivity string "spanContext option" "rat option"
  | PopActivity nat "(string \<times> jsval) list option"
  | FireTimer nat
  | VisibilityChange bool
  | HistoryChange "string option"
  | ProcessEvent bool event
  | Tick rat

fun step :: "action \<Rightarrow> tracing \<Rightarrow> tracing" where
  "step (Construct opts) s = construct opts s"
| "step (SetupOnce getter href hasDocument nativeFetch) s =
     snd (setupOnce getter href hasDocument nativeFetch s)"
| "step (StartIdleTransaction nm ctx) s = snd (startIdleTransaction nm ctx s)"
| "step FinishIdleTransaction s = finishIdleTransaction s"
| "step (SetTransactionStatus status) s = setTransactionStatus status s"
| "step (UpdateTransactionName nm) s = updateTransactionName nm s"
| "step (PushActivity nm ctx autoPopAfter) s = snd (pushActivity nm ctx autoPopAfter s)"
| "step (PopActivity ident spanData) s = popActivity ident spanData s"
| "step (FireTimer h) s = fireTimer h s"
| "step (VisibilityChange hidden) s =
     (if visibilityListener s then onVisibilityChange hidden s else s)"
| "step (HistoryChange href) s =
     (if HandlerHistory \<in> set (handlers s) then snd (historyCallback href s) else s)"
| "step (ProcessEvent self e) s =
     snd (notifyEventProcessors (eventProcessors s) self e s)"
| "step (Tick dt) s = tick dt s"

fun run :: "action list \<Rightarrow> tracing \<Rightarrow> tracing" where
  "run [] s = s"
| "run (a # as) s = run as (step a s)"

subsection \<open>A page load\<close>

text \<open>
  The state after the integration has been constructed with its defaults and set up in a
  browser page: tracing is enabled, the page-load transaction is span \<open>0\<close>, and its
  bootstrap activity \<open>1\<close> waits for timer \<open>1\<close>.
\<close>

definition pageloadState :: tracing where
  "pageloadState =
     run [Construct defaults, SetupOnce ReturnsHub (Some ''http://localhost/'') True True]
       (initial (\<lambda>n. 0))"

text \<open>The page-load state once the bootstrap timer has fired after 500 ms, 300 ms later:
  the registry is empty and the finish timer \<open>2\<close>, set at 500 ms, is pending.\<close>

definition idleState :: tracing where
  "idleState = run [Tick 500, FireTimer 1, Tick 300] pageloadState"

subsection \<open>Derived notions used in the statements\<close>

text \<open>The finish timer that \<open>popActivity\<close> schedules in state \<open>s\<close>.\<close>

definition finishTimer :: "tracing \<Rightarrow> timer" where
  "finishTimer s =
     \<lparr>handle = nextTimer s, scheduledAt = now s,
      delay = map_option idleTimeout (options s), callback = CbFinishIdle\<rparr>"

text \<open>The page-load state with one request in flight: activity \<open>2\<close> holds span \<open>1\<close>, a
  child of the page-load transaction.\<close>

definition httpRequest :: spanContext where
  "httpRequest = \<lparr>op = Some ''http'', description = Some ''GET /api'', sampled = None, transaction = None\<rparr>"

definition inflightState :: tracing where
  "inflightState = step (PushActivity ''xhr'' (Some httpRequest) None) pageloadState"

text \<open>The timers left by a \<open>pushActivity\<close> that gets past its guards: the finish timer
  named by \<open>debounce\<close> is gone, and an auto-pop timer is added when asked for.\<close>

definition pushedTimers :: "rat option \<Rightarrow> tracing \<Rightarrow> timer list" where
  "pushedTimers a s =
     filter (\<lambda>t. handle t \<noteq> debounce s) (timers s) @
     (case a of
        None \<Rightarrow> []
      | Some d \<Rightarrow> [\<lparr>handle = nextTimer s, scheduledAt = now s, delay = Some d,
                    callback = CbPopActivity (currentIndex s) (Some deadlineExceeded)\<rparr>])"

text \<open>The page-load state after a later set-up whose hub getter returns no hub.\<close>

definition hublessState :: tracing where
  "hublessState = step (SetupOnce ReturnsNothing None False False) pageloadState"

text \<open>The context given to the hub for a new transaction, the delay of the bootstrap timer,
  and the bootstrap timer itself, as \<open>startIdleTransaction\<close> computes them in state \<open>s\<close>.\<close>

definition transactionContext :: "string \<Rightarrow> spanContext option \<Rightarrow> spanContext" where
  "transactionContext nm c =
     (case c of
        Some ctx \<Rightarrow> ctx\<lparr>transaction := Some nm\<rparr>
      | None \<Rightarrow> \<lparr>op = None, description = None, sampled = None, transaction = Some nm\<rparr>)"

definition bootstrapDelay :: "tracing \<Rightarrow> rat" where
  "bootstrapDelay s =
     (case options s of
        None \<Rightarrow> 100
      | Some opt \<Rightarrow> if idleTimeout opt \<noteq> 0 then idleTimeout opt else 100)"

definition bootstrapTimer :: "tracing \<Rightarrow> timer" where
  "bootstrapTimer s =
     \<lparr>handle = nextTimer s, scheduledAt = now s, delay = Some (bootstrapDelay s),
      callback = CbPopActivity (currentIndex s) None\<rparr>"

definition bootstrapActivity :: activity where
  "bootstrapActivity = \<lparr>name = ''idleTransactionStarted'', span = None\<rparr>"

text \<open>The calls that finishing the active transaction of \<open>s\<close> adds.\<close>

definition finishCalls :: "tracing \<Rightarrow> call list" where
  "finishCalls s = (case activeTransaction s of Some t \<Rightarrow> [SpanFinish t True] | None \<Rightarrow> [])"

text \<open>The idle state after the tab has gone to the background: no transaction is active,
  the registry is empty, and the finish timer \<open>2\<close> is still pending.\<close>

definition discardedState :: tracing where
  "discardedState = step (VisibilityChange True) idleState"

subsection \<open>Invariants of the timer table\<close>

text \<open>Handles are handed out in increasing order, so every pending timer has a handle
  below the next one to be handed out.\<close>

definition timersFresh :: "tracing \<Rightarrow> bool" where
  "timersFresh s = (\<forall>t\<in>set (timers s). handle t < nextTimer s)"

definition pendingFinishTimers :: "tracing \<Rightarrow> timer list" where
  "pendingFinishTimers s = filter (\<lambda>t. callback t = CbFinishIdle) (timers s)"

text \<open>Pending timers have distinct handles, and a pending finish timer is the one whose
  handle is stored in \<open>debounce\<close>.\<close>

definition finishTimerInv :: "tracing \<Rightarrow> bool" where
  "finishTimerInv s =
     (timersFresh s \<and> distinct (map handle (timers s)) \<and>
      (\<forall>t\<in>set (timers s). callback t = CbFinishIdle \<longrightarrow> handle t = debounce s))"

text \<open>The integration set up where there is no location, so that no page-load transaction
  is started: with the defaults, and with an idle timeout of \<open>0\<close>.\<close>

definition setupState :: tracing where
  "setupState = run [Construct defaults, SetupOnce ReturnsHub None True True] (initial (\<lambda>n. 0))"

definition zeroIdleState :: tracing where
  "zeroIdleState =
     run [Construct (defaults\<lparr>idleTimeout := 0\<rparr>), SetupOnce ReturnsHub None True True]
       (initial (\<lambda>n. 0))"

subsection \<open>Spans that the controller no longer holds\<close>

text \<open>The calls of \<^verbatim>\<open>finish\<close> made on span \<open>t\<close>, in a trace of calls.\<close>

definition finishesOf :: "span \<Rightarrow> call list \<Rightarrow> call list" where
  "finishesOf t cs = filter (\<lambda>c. c = SpanFinish t True \<or> c = SpanFinish t False) cs"

text \<open>Span \<open>t\<close> has been handed out by the hub, and neither the active-transaction
  reference nor an activity of the registry holds it.\<close>

definition unreferenced :: "span \<Rightarrow> tracing \<Rightarrow> bool" where
  "unreferenced t s =
     (t < nextSpan s \<and> activeTransaction s \<noteq> Some t \<and>
      list_all (\<lambda>(k, act). span act \<noteq> Some t) (activities s))"

subsection \<open>Well-formed controller states\<close>

text \<open>The id counter is positive, and the span bound on the scope is the active
  transaction whenever there is one.\<close>

definition controllerInv :: "tracing \<Rightarrow> bool" where
  "controllerInv s =
     (0 < currentIndex s \<and> (activeTransaction s \<noteq> None \<longrightarrow> scopeSpan s = activeTransaction s))"


section \<open>Properties\<close>

lemmas host_defs =
  setTimeout_def clearTimeout_def record_call_def hubStartSpan_def scopeSetSpan_def

lemmas ctl_defs =
  isEnabled_def finishIdleTransaction_def pushActivity_def popActivity_def
  startIdleTransaction_def

lemma pageloadState_eq:
  "pageloadState =
     \<lparr>enabled = Some True, options = Some defaults, getCurrentHub = Some ReturnsHub,
      activeTransaction = Some 0, currentIndex = 2,
      activities = [(1, \<lparr>name = ''idleTransactionStarted'', span = None\<rparr>)],
      debounce = 0,
      timers = [\<lparr>handle = 1, scheduledAt = 0, delay = Some 500, callback = CbPopActivity 1 None\<rparr>],
      nextTimer = 2, now = 0, randomSource = (\<lambda>n. 0), randomDraws = 1,
      calls = [HubStartSpan (pageload\<lparr>transaction := Some ''http://localhost/''\<rparr>) True None 0,
               ScopeSetSpan 0],
      nextSpan = 1, scopeSpan = Some 0,
      handlers = [HandlerXHR, HandlerFetch, HandlerHistory],
      visibilityListener = True, eventProcessors = [ReturnsHub]\<rparr>"
  by (simp add: pageloadState_def initial_def defaults_def construct_def setupOnce_def
        addInstrumentationHandler_def host_defs ctl_defs Let_def)

subsection \<open>The enablement gate (C5)\<close>




lemma idleState_eq:
  "idleState =
     pageloadState\<lparr>activities := [], debounce := 2,
       timers := [\<lparr>handle = 2, scheduledAt = 500, delay = Some 500, callback = CbFinishIdle\<rparr>],
       nextTimer := 3, now := 800\<rparr>"
  by (simp add: idleState_def pageloadState_eq tick_def fireTimer_def defaults_def
        host_defs ctl_defs Let_def)

subsection \<open>Frame facts\<close>

lemma isEnabled_frame [simp]:
  "options (snd (isEnabled s)) = options s"
  "getCurrentHub (snd (isEnabled s)) = getCurrentHub s"
  "activeTransaction (snd (isEnabled s)) = activeTransaction s"
  "currentIndex (snd (isEnabled s)) = currentIndex s"
  "activities (snd (isEnabled s)) = activities s"
  "debounce (snd (isEnabled s)) = debounce s"
  "timers (snd (isEnabled s)) = timers s"
  "nextTimer (snd (isEnabled s)) = nextTimer s"
  "now (snd (isEnabled s)) = now s"
  "randomSource (snd (isEnabled s)) = randomSource s"
  "calls (snd (isEnabled s)) = calls s"
  "nextSpan (snd (isEnabled s)) = nextSpan s"
  "scopeSpan (snd (isEnabled s)) = scopeSpan s"
  "handlers (snd (isEnabled s)) = handlers s"
  "visibilityListener (snd (isEnabled s)) = visibilityListener s"
  "eventProcessors (snd (isEnabled s)) = eventProcessors s"
  by (simp_all add: isEnabled_def Let_def split: option.splits)

lemma isEnabled_again [simp]:
  "isEnabled (snd (isEnabled s)) = (fst (isEnabled s), snd (isEnabled s))"
  by (simp add: isEnabled_def Let_def split: option.splits)

lemma isEnabled_cached:
  "fst (isEnabled s) \<Longrightarrow> enabled (snd (isEnabled s)) = Some True"
  by (auto simp: isEnabled_def Let_def split: option.splits if_splits)

lemma isEnabled_of_cached [simp]:
  "enabled s = Some b \<Longrightarrow> isEnabled s = (b, s)"
  by (simp add: isEnabled_def)

lemma isEnabled_after:
  "enabled s' = enabled (snd (isEnabled s)) \<Longrightarrow> options s' = options s \<Longrightarrow>
   isEnabled s' = (fst (isEnabled s), s')"
  by (auto simp: isEnabled_def Let_def split: option.splits if_splits)

lemma eventProcessor_state:
  "snd (eventProcessor g self e s) = s \<or> snd (eventProcessor g self e s) = snd (isEnabled s)"
  by (cases g) (simp_all add: eventProcessor_def split_def Let_def split: option.splits)

lemma notifyEventProcessors_state:
  "snd (notifyEventProcessors gs self e s) = s \<or>
   snd (notifyEventProcessors gs self e s) = snd (isEnabled s)"
proof (induction gs arbitrary: e s)
  case Nil
  then show ?case by simp
next
  case (Cons g gs)
  obtain r s' where p: "eventProcessor g self e s = (r, s')" by (cases "eventProcessor g self e s")
  have s': "s' = s \<or> s' = snd (isEnabled s)"
    using eventProcessor_state [of g self e s] by (simp add: p)
  show ?case
  proof (cases r)
    case (Inl err)
    then show ?thesis using p s' by simp
  next
    case (Inr res)
    show ?thesis
    proof (cases res)
      case None
      then show ?thesis using p s' Inr by simp
    next
      case (Some e')
      have "snd (notifyEventProcessors (g # gs) self e s) = snd (notifyEventProcessors gs self e' s')"
        using p Inr Some by simp
      moreover have "snd (notifyEventProcessors gs self e' s') = s' \<or>
          snd (notifyEventProcessors gs self e' s') = snd (isEnabled s')"
        by (rule Cons.IH)
      ultimately show ?thesis using s' by auto
    qed
  qed
qed

lemma delete_absent: "map_of al k = None \<Longrightarrow> AList.delete k al = al"
  by (simp add: map_of_eq_None_iff)

lemma setSpanData_frame [simp]:
  "enabled (setSpanData sp kvs s) = enabled s"
  "options (setSpanData sp kvs s) = options s"
  "getCurrentHub (setSpanData sp kvs s) = getCurrentHub s"
  "activeTransaction (setSpanData sp kvs s) = activeTransaction s"
  "currentIndex (setSpanData sp kvs s) = currentIndex s"
  "activities (setSpanData sp kvs s) = activities s"
  "debounce (setSpanData sp kvs s) = debounce s"
  "timers (setSpanData sp kvs s) = timers s"
  "nextTimer (setSpanData sp kvs s) = nextTimer s"
  "now (setSpanData sp kvs s) = now s"
  "randomSource (setSpanData sp kvs s) = randomSource s"
  "randomDraws (setSpanData sp kvs s) = randomDraws s"
  "nextSpan (setSpanData sp kvs s) = nextSpan s"
  "scopeSpan (setSpanData sp kvs s) = scopeSpan s"
  "handlers (setSpanData sp kvs s) = handlers s"
  "visibilityListener (setSpanData sp kvs s) = visibilityListener s"
  "eventProcessors (setSpanData sp kvs s) = eventProcessors s"
  by (induction sp kvs s rule: setSpanData.induct; simp add: Let_def record_call_def)+

subsection \<open>Facts about \<open>popActivity\<close>\<close>

lemma popActivity_guard:
  "ident = 0 \<or> \<not> fst (isEnabled s) \<Longrightarrow> popActivity ident d s = snd (isEnabled s)"
  by (auto simp: popActivity_def split_def)

lemma popActivity_absent_calls:
  "map_of (activities s) ident = None \<Longrightarrow> calls (popActivity ident d s) = calls s"
  by (simp add: popActivity_def split_def Let_def host_defs)

lemma popActivity_activeTransaction [simp]:
  "activeTransaction (popActivity ident d s) = activeTransaction s"
  by (simp add: popActivity_def split_def Let_def host_defs split: option.splits)

lemma popActivity_gate [simp]:
  "enabled (popActivity ident d s) = enabled (snd (isEnabled s))"
  "options (popActivity ident d s) = options s"
  by (simp_all add: popActivity_def split_def Let_def host_defs split: option.splits)

lemma popActivity_timers:
  assumes "ident \<noteq> 0" "fst (isEnabled s)"
  shows "timers (popActivity ident d s) =
           filter (\<lambda>t. handle t \<noteq> debounce s) (timers s) @
           (if AList.delete ident (activities s) = [] \<and> activeTransaction s \<noteq> None
            then [finishTimer s] else [])"
  using assms
  by (auto simp add: popActivity_def split_def Let_def host_defs finishTimer_def delete_absent
        split: option.splits)

lemma popActivity_activities:
  assumes "ident \<noteq> 0" "fst (isEnabled s)"
  shows "activities (popActivity ident d s) = AList.delete ident (activities s)"
  using assms
  by (auto simp add: popActivity_def split_def Let_def host_defs delete_absent
        split: option.splits)

lemma popActivity_absent_after:
  "ident = 0 \<or> \<not> fst (isEnabled s) \<or> map_of (activities (popActivity ident d s)) ident = None"
proof (cases "ident = 0 \<or> \<not> fst (isEnabled s)")
  case True
  then show ?thesis by blast
next
  case False
  then have "activities (popActivity ident d s) = AList.delete ident (activities s)"
    by (simp add: popActivity_activities)
  then show ?thesis by (simp add: AList.delete_conv')
qed

lemma popActivity_again:
  "activities (popActivity ident d' (popActivity ident d s)) = activities (popActivity ident d s)"
  "calls (popActivity ident d' (popActivity ident d s)) = calls (popActivity ident d s)"
proof -
  define s' where "s' = popActivity ident d s"
  have en: "isEnabled s' = (fst (isEnabled s), s')"
    unfolding s'_def by (rule isEnabled_after) simp_all
  have fe: "fst (isEnabled s') = fst (isEnabled s)" and se: "snd (isEnabled s') = s'"
    by (simp_all only: en fst_conv snd_conv)
  have stay: "popActivity ident d' s' = s'" if "ident = 0 \<or> \<not> fst (isEnabled s)"
  proof -
    from that have "ident = 0 \<or> \<not> fst (isEnabled s')" by (simp only: fe)
    then have "popActivity ident d' s' = snd (isEnabled s')" by (rule popActivity_guard)
    then show ?thesis by (simp only: se)
  qed
  have a: "activities (popActivity ident d' s') = activities s'"
  proof (cases "ident = 0 \<or> \<not> fst (isEnabled s)")
    case True
    then show ?thesis by (simp only: stay)
  next
    case False
    then have n0: "ident \<noteq> 0" and e1: "fst (isEnabled s)" and e2: "fst (isEnabled s')"
      by (simp_all only: fe) simp_all
    have "activities (popActivity ident d' s') = AList.delete ident (activities s')"
      by (rule popActivity_activities [OF n0 e2])
    moreover have "activities s' = AList.delete ident (activities s)"
      unfolding s'_def by (rule popActivity_activities [OF n0 e1])
    ultimately show ?thesis
      by (simp only: AList.delete_idem)
  qed
  have c: "calls (popActivity ident d' s') = calls s'"
  proof (cases "ident = 0 \<or> \<not> fst (isEnabled s)")
    case True
    then show ?thesis by (simp only: stay)
  next
    case False
    then have "map_of (activities s') ident = None"
      using popActivity_absent_after [of ident s d] unfolding s'_def by blast
    then show ?thesis by (rule popActivity_absent_calls)
  qed
  from a show "activities (popActivity ident d' (popActivity ident d s)) = activities (popActivity ident d s)"
    unfolding s'_def .
  from c show "calls (popActivity ident d' (popActivity ident d s)) = calls (popActivity ident d s)"
    unfolding s'_def .
qed

subsection \<open>Popping an activity that is not there (C1)\<close>

text \<open>
  C1, as the code has it. \<open>popActivity\<close> with id \<open>0\<close>, or with tracing disabled, does
  nothing beyond the evaluation of the gate: registry, active transaction, timers, the
  debounce handle and the calls made on spans are as before. With an id that is not \<open>0\<close>
  and not in the registry, and tracing enabled, the registry, the active transaction and the
  spans are untouched, but the pending finish timer is cancelled, and when the registry is
  empty and a transaction is active a new finish timer is scheduled from the current
  time. For every id, a second \<open>popActivity\<close> leaves the registry, the active
  transaction and the calls on spans as the first one left them.
\<close>

theorem popActivity_absent:
  "(ident = 0 \<or> \<not> fst (isEnabled s) \<longrightarrow>
      popActivity ident d s = snd (isEnabled s)
      \<and> activities (popActivity ident d s) = activities s
      \<and> timers (popActivity ident d s) = timers s
      \<and> debounce (popActivity ident d s) = debounce s
      \<and> calls (popActivity ident d s) = calls s)
   \<and> (map_of (activities s) ident = None \<longrightarrow>
        activities (popActivity ident d s) = activities s
        \<and> calls (popActivity ident d s) = calls s
        \<and> (ident \<noteq> 0 \<and> fst (isEnabled s) \<longrightarrow>
             timers (popActivity ident d s) =
               filter (\<lambda>t. handle t \<noteq> debounce s) (timers s) @
               (if activities s = [] \<and> activeTransaction s \<noteq> None then [finishTimer s] else [])))
   \<and> activeTransaction (popActivity ident d s) = activeTransaction s
   \<and> activities (popActivity ident d' (popActivity ident d s)) = activities (popActivity ident d s)
   \<and> calls (popActivity ident d' (popActivity ident d s)) = calls (popActivity ident d s)"
proof -
  have guard: "ident = 0 \<or> \<not> fst (isEnabled s) \<Longrightarrow> popActivity ident d s = snd (isEnabled s)"
    by (rule popActivity_guard)
  have absent: "activities (popActivity ident d s) = activities s"
    if "map_of (activities s) ident = None"
  proof (cases "ident = 0 \<or> \<not> fst (isEnabled s)")
    case True
    then show ?thesis by (simp add: guard)
  next
    case False
    then show ?thesis using that by (simp add: popActivity_activities delete_absent)
  qed
  have rearm: "timers (popActivity ident d s) =
      filter (\<lambda>t. handle t \<noteq> debounce s) (timers s) @
      (if activities s = [] \<and> activeTransaction s \<noteq> None then [finishTimer s] else [])"
    if "map_of (activities s) ident = None" "ident \<noteq> 0" "fst (isEnabled s)"
    using that by (simp add: popActivity_timers delete_absent)
  show ?thesis
    using guard absent rearm popActivity_absent_calls [of s ident d]
      popActivity_again [of ident d' d s]
    by simp
qed

theorem popActivity_absent_witness:
  "map_of (activities idleState) 1 = None
   \<and> activities (popActivity 1 None idleState) = []
   \<and> activeTransaction (popActivity 1 None idleState) = Some 0
   \<and> timers (popActivity 1 None idleState) =
       [\<lparr>handle = 3, scheduledAt = 800, delay = Some 500, callback = CbFinishIdle\<rparr>]
   \<and> popActivity 0 None idleState = idleState"
  using popActivity_absent [of 1 idleState None None] popActivity_absent [of 0 idleState None None]
  by (simp add: idleState_eq pageloadState_eq finishTimer_def defaults_def)

text \<open>
  The claim as stated asks that the pending finish timer stay as it is. In \<open>idleState\<close>
  activity \<open>1\<close> has been popped and the finish timer set at 500 ms is pending; popping
  \<open>1\<close> again at 800 ms replaces it by a timer set at 800 ms.
\<close>

theorem popActivity_absent_counterexample:
  "map_of (activities idleState) 1 = None
   \<and> timers idleState =
       [\<lparr>handle = 2, scheduledAt = 500, delay = Some 500, callback = CbFinishIdle\<rparr>]
   \<and> timers (popActivity 1 None idleState) =
       [\<lparr>handle = 3, scheduledAt = 800, delay = Some 500, callback = CbFinishIdle\<rparr>]
   \<and> timers (popActivity 1 None idleState) \<noteq> timers idleState"
  by (simp add: idleState_eq pageloadState_eq defaults_def host_defs ctl_defs Let_def)

lemma inflightState_eq:
  "inflightState =
     pageloadState\<lparr>currentIndex := 3,
       activities := [(1, \<lparr>name = ''idleTransactionStarted'', span = None\<rparr>),
                      (2, \<lparr>name = ''xhr'', span = Some 1\<rparr>)],
       calls := calls pageloadState @ [HubStartSpan httpRequest False (Some 0) 1],
       nextSpan := 2\<rparr>"
  by (simp add: inflightState_def pageloadState_eq defaults_def host_defs ctl_defs Let_def)

subsection \<open>Finishing does not release the transaction (C3)\<close>

text \<open>
  C3. \<open>finishIdleTransaction\<close> calls \<^verbatim>\<open>finish(true)\<close> on the active transaction, and does
  nothing when there is none; but it never clears the reference to the active transaction
  (nor the registry). After the page load, the transaction \<open>0\<close> is still the active one
  after it has been finished, and a second call finishes the same span a second time.
\<close>

theorem finishIdleTransaction_keeps_reference:
  "activeTransaction (finishIdleTransaction s) = activeTransaction s
   \<and> activities (finishIdleTransaction s) = activities s
   \<and> activeTransaction pageloadState = Some 0
   \<and> activeTransaction (finishIdleTransaction pageloadState) = Some 0
   \<and> calls (finishIdleTransaction (finishIdleTransaction pageloadState)) =
       calls pageloadState @ [SpanFinish 0 True, SpanFinish 0 True]"
  by (simp add: pageloadState_eq finishIdleTransaction_def record_call_def split: option.splits)

subsection \<open>A new transaction inherits the registry (C2)\<close>

text \<open>
  C2. \<open>startIdleTransaction\<close> does not clear the registry. Started while the page-load
  transaction \<open>0\<close> has its bootstrap activity \<open>1\<close> and a request \<open>2\<close> in flight, it
  makes span \<open>2\<close> the active transaction and adds the new bootstrap activity \<open>3\<close>; the
  activities \<open>1\<close> and \<open>2\<close> of the replaced transaction are still registered.
\<close>

theorem startIdleTransaction_keeps_registry:
  "fst (startIdleTransaction ''/next'' (Some navigation) inflightState) = Some 2
   \<and> activeTransaction (snd (startIdleTransaction ''/next'' (Some navigation) inflightState)) = Some 2
   \<and> activities (snd (startIdleTransaction ''/next'' (Some navigation) inflightState)) =
       [(1, \<lparr>name = ''idleTransactionStarted'', span = None\<rparr>),
        (2, \<lparr>name = ''xhr'', span = Some 1\<rparr>),
        (3, \<lparr>name = ''idleTransactionStarted'', span = None\<rparr>)]"
  by (simp add: inflightState_eq pageloadState_eq defaults_def host_defs ctl_defs Let_def)

lemma pageloadState_gate:
  "isEnabled pageloadState = (True, pageloadState)" "options pageloadState = Some defaults"
  by (simp_all add: pageloadState_eq)

lemma defaults_max: "maxTransactionDuration defaults = 600"
  by (simp add: defaults_def)

subsection \<open>Facts about \<open>pushActivity\<close>\<close>

lemma pushActivity_guard:
  "\<not> fst (isEnabled s) \<or> activeTransaction s = None \<Longrightarrow>
   pushActivity nm c a s = (0, snd (isEnabled s))"
  by (cases "fst (isEnabled s)") (simp_all add: pushActivity_def split_def)

lemma pushActivity_marker:
  assumes "fst (isEnabled s)" "activeTransaction s \<noteq> None"
    and "c = None \<or> getCurrentHub s = None"
  shows "pushActivity nm c a s =
    (currentIndex s,
     (snd (isEnabled s))
       \<lparr>timers := pushedTimers a s,
        nextTimer := (if a = None then nextTimer s else Suc (nextTimer s)),
        activities := AList.update (currentIndex s) \<lparr>name = nm, span = None\<rparr> (activities s),
        currentIndex := Suc (currentIndex s)\<rparr>)"
proof -
  obtain t where t: "activeTransaction s = Some t" using assms(2) by blast
  show ?thesis
    using assms(1,3) t
    by (cases c; cases a)
       (simp_all add: pushActivity_def split_def Let_def host_defs pushedTimers_def)
qed

lemma pushActivity_span:
  assumes "fst (isEnabled s)" "activeTransaction s \<noteq> None"
    and "c = Some ctx" "getCurrentHub s = Some ReturnsHub"
  shows "pushActivity nm c a s =
    (currentIndex s,
     (snd (isEnabled s))
       \<lparr>timers := pushedTimers a s,
        nextTimer := (if a = None then nextTimer s else Suc (nextTimer s)),
        calls := calls s @ [HubStartSpan ctx False (scopeSpan s) (nextSpan s)],
        nextSpan := Suc (nextSpan s),
        activities := AList.update (currentIndex s) \<lparr>name = nm, span = Some (nextSpan s)\<rparr> (activities s),
        currentIndex := Suc (currentIndex s)\<rparr>)"
proof -
  obtain t where t: "activeTransaction s = Some t" using assms(2) by blast
  show ?thesis
    using assms(1,3,4) t
    by (cases a)
       (simp_all add: pushActivity_def split_def Let_def host_defs pushedTimers_def)
qed

lemma pushActivity_nohub:
  assumes "fst (isEnabled s)" "activeTransaction s \<noteq> None"
    and "c = Some ctx" "getCurrentHub s = Some ReturnsNothing"
  shows "pushActivity nm c a s =
    (currentIndex s,
     (snd (isEnabled s))
       \<lparr>timers := pushedTimers a s,
        nextTimer := (if a = None then nextTimer s else Suc (nextTimer s)),
        currentIndex := Suc (currentIndex s)\<rparr>)"
proof -
  obtain t where t: "activeTransaction s = Some t" using assms(2) by blast
  show ?thesis
    using assms(1,3,4) t
    by (cases a)
       (simp_all add: pushActivity_def split_def Let_def host_defs pushedTimers_def)
qed

text \<open>The four ways through \<open>pushActivity\<close>.\<close>

lemma pushActivity_cases:
  obtains
    (guard) "\<not> fst (isEnabled s) \<or> activeTransaction s = None"
      "pushActivity nm c a s = (0, snd (isEnabled s))"
  | (marker) "fst (isEnabled s)" "activeTransaction s \<noteq> None" "c = None \<or> getCurrentHub s = None"
  | (span) ctx where "fst (isEnabled s)" "activeTransaction s \<noteq> None" "c = Some ctx"
      "getCurrentHub s = Some ReturnsHub"
  | (nohub) ctx where "fst (isEnabled s)" "activeTransaction s \<noteq> None" "c = Some ctx"
      "getCurrentHub s = Some ReturnsNothing"
proof (cases "\<not> fst (isEnabled s) \<or> activeTransaction s = None")
  case True
  then show ?thesis using guard pushActivity_guard by blast
next
  case False
  then have en: "fst (isEnabled s)" and act: "activeTransaction s \<noteq> None" by simp_all
  show ?thesis
  proof (cases c)
    case None
    then show ?thesis using marker en act by blast
  next
    case (Some ctx)
    show ?thesis
    proof (cases "getCurrentHub s")
      case None
      then show ?thesis using marker en act by blast
    next
      case (Some g)
      then show ?thesis
        using span nohub en act \<open>c = Some ctx\<close> by (cases g) blast+
    qed
  qed
qed

lemma pushActivity_frame [simp]:
  "activeTransaction (snd (pushActivity nm c a s)) = activeTransaction s"
  "debounce (snd (pushActivity nm c a s)) = debounce s"
  "options (snd (pushActivity nm c a s)) = options s"
  "getCurrentHub (snd (pushActivity nm c a s)) = getCurrentHub s"
  "enabled (snd (pushActivity nm c a s)) = enabled (snd (isEnabled s))"
  "scopeSpan (snd (pushActivity nm c a s)) = scopeSpan s"
  "now (snd (pushActivity nm c a s)) = now s"
  "handlers (snd (pushActivity nm c a s)) = handlers s"
  "visibilityListener (snd (pushActivity nm c a s)) = visibilityListener s"
  "eventProcessors (snd (pushActivity nm c a s)) = eventProcessors s"
  by (cases nm c a s rule: pushActivity_cases;
      simp add: pushActivity_marker pushActivity_span pushActivity_nohub)+

lemma pushActivity_stored_timers:
  "fst (isEnabled s) \<Longrightarrow> activeTransaction s \<noteq> None \<Longrightarrow>
   timers (snd (pushActivity nm c a s)) = pushedTimers a s \<and>
   nextTimer (snd (pushActivity nm c a s)) = (if a = None then nextTimer s else Suc (nextTimer s)) \<and>
   fst (pushActivity nm c a s) = currentIndex s \<and>
   currentIndex (snd (pushActivity nm c a s)) = Suc (currentIndex s)"
  by (cases nm c a s rule: pushActivity_cases;
      simp add: pushActivity_marker pushActivity_span pushActivity_nohub)

lemma hublessState_eq:
  "hublessState =
     pageloadState\<lparr>getCurrentHub := Some ReturnsNothing,
       handlers := [HandlerXHR, HandlerFetch, HandlerHistory, HandlerXHR, HandlerHistory],
       eventProcessors := [ReturnsHub, ReturnsNothing]\<rparr>"
  by (simp add: hublessState_def pageloadState_eq setupOnce_def defaults_def
        addInstrumentationHandler_def)

lemma hublessState_gate:
  "isEnabled hublessState = (True, hublessState)"
  "activeTransaction hublessState = Some 0"
  "getCurrentHub hublessState = Some ReturnsNothing"
  "currentIndex hublessState = 2"
  "activities hublessState = [(1, \<lparr>name = ''idleTransactionStarted'', span = None\<rparr>)]"
  "calls hublessState = calls pageloadState"
  "timers hublessState = timers pageloadState"
  "debounce hublessState = 0"
  by (simp_all add: hublessState_eq pageloadState_eq)

lemma pageloadState_fields:
  "activeTransaction pageloadState = Some 0"
  "getCurrentHub pageloadState = Some ReturnsHub"
  "currentIndex pageloadState = 2"
  "activities pageloadState = [(1, \<lparr>name = ''idleTransactionStarted'', span = None\<rparr>)]"
  "scopeSpan pageloadState = Some 0"
  "nextSpan pageloadState = 1"
  "debounce pageloadState = 0"
  "nextTimer pageloadState = 2"
  "now pageloadState = 0"
  "timers pageloadState =
     [\<lparr>handle = 1, scheduledAt = 0, delay = Some 500, callback = CbPopActivity 1 None\<rparr>]"
  by (simp_all add: pageloadState_eq)

subsection \<open>Facts about \<open>startIdleTransaction\<close>\<close>

lemma finishIdleTransaction_eq:
  "finishIdleTransaction s = s\<lparr>calls := calls s @ finishCalls s\<rparr>"
  by (simp add: finishIdleTransaction_def finishCalls_def record_call_def split: option.splits)

lemma finishCalls_isEnabled [simp]: "finishCalls (snd (isEnabled s)) = finishCalls s"
  by (simp add: finishCalls_def)

lemma startIdleTransaction_disabled:
  "\<not> fst (isEnabled s) \<Longrightarrow> startIdleTransaction nm c s = (None, snd (isEnabled s))"
  by (simp add: startIdleTransaction_def split_def)

lemma startIdleTransaction_nohub:
  "fst (isEnabled s) \<Longrightarrow> getCurrentHub s \<noteq> Some ReturnsHub \<Longrightarrow>
   startIdleTransaction nm c s =
     (None, (snd (isEnabled s))\<lparr>calls := calls s @ finishCalls s\<rparr>)"
  by (cases "getCurrentHub s"; cases "the (getCurrentHub s)")
     (simp_all add: startIdleTransaction_def split_def finishIdleTransaction_eq finishCalls_def)

lemma startIdleTransaction_success:
  assumes "fst (isEnabled s)" "getCurrentHub s = Some ReturnsHub"
  shows "startIdleTransaction nm c s =
     (Some (nextSpan s),
      (snd (isEnabled s))
        \<lparr>calls := calls s @ finishCalls s @
                  [HubStartSpan (transactionContext nm c) True None (nextSpan s),
                   ScopeSetSpan (nextSpan s)],
         nextSpan := Suc (nextSpan s),
         activeTransaction := Some (nextSpan s),
         scopeSpan := Some (nextSpan s),
         timers := filter (\<lambda>t. handle t \<noteq> debounce s) (timers s) @ [bootstrapTimer s],
         nextTimer := Suc (nextTimer s),
         activities := AList.update (currentIndex s) bootstrapActivity (activities s),
         currentIndex := Suc (currentIndex s)\<rparr>)"
proof -
  define s1 where "s1 = snd (isEnabled s)"
  have c1: "enabled s1 = Some True"
    unfolding s1_def using assms(1) by (rule isEnabled_cached)
  define s5 where "s5 =
    s1\<lparr>calls := calls s @ finishCalls s @
                  [HubStartSpan (transactionContext nm c) True None (nextSpan s),
                   ScopeSetSpan (nextSpan s)],
       nextSpan := Suc (nextSpan s),
       activeTransaction := Some (nextSpan s),
       scopeSpan := Some (nextSpan s)\<rparr>"
  have e5: "isEnabled s5 = (True, s5)"
    by (rule isEnabled_of_cached) (simp add: s5_def c1)
  have a5: "activeTransaction s5 \<noteq> None"
    by (simp add: s5_def)
  have p: "pushActivity ''idleTransactionStarted'' None None s5 =
    (currentIndex s5,
     s5\<lparr>timers := pushedTimers None s5,
        activities := AList.update (currentIndex s5) \<lparr>name = ''idleTransactionStarted'', span = None\<rparr> (activities s5),
        currentIndex := Suc (currentIndex s5)\<rparr>)"
    using pushActivity_marker [of s5 None "''idleTransactionStarted''" None] e5 a5 by simp
  have s5': "scopeSetSpan (nextSpan s)
      ((snd (hubStartSpan (transactionContext nm c) True (finishIdleTransaction s1)))
         \<lparr>activeTransaction := Some (nextSpan s)\<rparr>) = s5"
    by (simp add: s5_def s1_def host_defs finishIdleTransaction_eq)
  have h: "fst (hubStartSpan (transactionContext nm c) True (finishIdleTransaction s1)) = nextSpan s"
    by (simp add: s1_def host_defs finishIdleTransaction_eq)
  have g: "getCurrentHub (finishIdleTransaction s1) = Some ReturnsHub"
    by (simp add: s1_def finishIdleTransaction_eq assms(2))
  have "startIdleTransaction nm c s =
     (let (ident, s6) = pushActivity ''idleTransactionStarted'' None None s5;
          d = (case options s6 of
                 None \<Rightarrow> 100
               | Some opt \<Rightarrow> if idleTimeout opt \<noteq> 0 then idleTimeout opt else 100);
          (h, s7) = setTimeout (CbPopActivity ident None) (Some d) s6
      in (Some (nextSpan s), s7))"
    using assms(1) g h s5'
    by (simp add: startIdleTransaction_def split_def Let_def s1_def [symmetric]
          transactionContext_def [symmetric])
  also have "\<dots> = (Some (nextSpan s),
      s1\<lparr>calls := calls s @ finishCalls s @
                  [HubStartSpan (transactionContext nm c) True None (nextSpan s),
                   ScopeSetSpan (nextSpan s)],
         nextSpan := Suc (nextSpan s),
         activeTransaction := Some (nextSpan s),
         scopeSpan := Some (nextSpan s),
         timers := filter (\<lambda>t. handle t \<noteq> debounce s) (timers s) @ [bootstrapTimer s],
         nextTimer := Suc (nextTimer s),
         activities := AList.update (currentIndex s) bootstrapActivity (activities s),
         currentIndex := Suc (currentIndex s)\<rparr>)"
    unfolding p
    by (simp add: s5_def s1_def setTimeout_def pushedTimers_def bootstrapTimer_def
          bootstrapDelay_def bootstrapActivity_def)
  finally show ?thesis by (simp add: s1_def)
qed

subsection \<open>Absent prerequisites (C10)\<close>

lemma discardedState_eq:
  "discardedState = idleState\<lparr>activeTransaction := None, activities := []\<rparr>"
  by (simp add: discardedState_def onVisibilityChange_def idleState_eq pageloadState_eq)

lemma discardedState_fields:
  "isEnabled discardedState = (True, discardedState)"
  "activeTransaction discardedState = None"
  "activities discardedState = []"
  "debounce discardedState = 2"
  "timers discardedState =
     [\<lparr>handle = 2, scheduledAt = 500, delay = Some 500, callback = CbFinishIdle\<rparr>]"
  "calls discardedState = calls pageloadState"
  by (simp_all add: discardedState_eq idleState_eq pageloadState_eq)

text \<open>
  C10, as the code has it.
  \<^item> With the gate disabled, \<open>startIdleTransaction\<close>, \<open>pushActivity\<close> and \<open>popActivity\<close>
    return none or \<open>0\<close> and leave the state as the evaluation of the gate left it.
  \<^item> With no active transaction, \<open>pushActivity\<close> returns \<open>0\<close> and does the same, and
    \<open>finishIdleTransaction\<close> and \<open>setTransactionStatus\<close> change nothing; \<open>popActivity\<close>
    schedules no timer and makes no call on a span when the registry is empty.
  \<^item> With no hub, \<open>updateTransactionName\<close> changes nothing, and \<open>startIdleTransaction\<close>
    returns none and leaves the active-transaction reference, the registry, the timers and
    the id counter as they were; but, tracing being enabled, it has first finished the
    transaction that was active.
\<close>

theorem absent_prerequisites:
  "(\<not> fst (isEnabled s) \<longrightarrow>
      startIdleTransaction nm c s = (None, snd (isEnabled s))
      \<and> pushActivity nm c a s = (0, snd (isEnabled s))
      \<and> popActivity ident d s = snd (isEnabled s))
   \<and> (activeTransaction s = None \<longrightarrow>
        pushActivity nm c a s = (0, snd (isEnabled s))
        \<and> finishIdleTransaction s = s
        \<and> setTransactionStatus status s = s
        \<and> set (timers (popActivity ident d s)) \<subseteq> set (timers s)
        \<and> (activities s = [] \<longrightarrow> calls (popActivity ident d s) = calls s))
   \<and> (getCurrentHub s \<noteq> Some ReturnsHub \<longrightarrow>
        updateTransactionName nm s = s
        \<and> fst (startIdleTransaction nm c s) = None
        \<and> activeTransaction (snd (startIdleTransaction nm c s)) = activeTransaction s
        \<and> activities (snd (startIdleTransaction nm c s)) = activities s
        \<and> timers (snd (startIdleTransaction nm c s)) = timers s
        \<and> debounce (snd (startIdleTransaction nm c s)) = debounce s
        \<and> currentIndex (snd (startIdleTransaction nm c s)) = currentIndex s
        \<and> calls (snd (startIdleTransaction nm c s)) =
            calls s @ (if fst (isEnabled s) then finishCalls s else []))"
proof -
  have pop_timers: "set (timers (popActivity ident d s)) \<subseteq> set (timers s)"
    if "activeTransaction s = None"
  proof (cases "ident = 0 \<or> \<not> fst (isEnabled s)")
    case True
    then show ?thesis by (simp add: popActivity_guard)
  next
    case False
    then show ?thesis using that by (auto simp: popActivity_timers)
  qed
  have pop_calls: "calls (popActivity ident d s) = calls s" if "activities s = []"
    by (rule popActivity_absent_calls) (simp add: that)
  have upd: "updateTransactionName nm s = s" if "getCurrentHub s \<noteq> Some ReturnsHub"
    using that
    by (cases "getCurrentHub s"; cases "the (getCurrentHub s)")
       (simp_all add: updateTransactionName_def)
  have start: "startIdleTransaction nm c s =
      (None, (snd (isEnabled s))\<lparr>calls := calls s @ (if fst (isEnabled s) then finishCalls s else [])\<rparr>)"
    if "getCurrentHub s \<noteq> Some ReturnsHub"
    using that
    by (cases "fst (isEnabled s)")
       (simp_all add: startIdleTransaction_nohub startIdleTransaction_disabled)
  have fin: "finishIdleTransaction s = s" "setTransactionStatus status s = s"
    if "activeTransaction s = None"
    using that by (simp_all add: finishIdleTransaction_def setTransactionStatus_def)
  show ?thesis
    using pop_timers pop_calls upd start fin
    by (simp add: startIdleTransaction_disabled pushActivity_guard popActivity_guard)
qed

theorem absent_prerequisites_witness:
  "startIdleTransaction ''/next'' None (initial (\<lambda>n. 0)) = (None, initial (\<lambda>n. 0))
   \<and> pushActivity ''xhr'' None None discardedState = (0, discardedState)
   \<and> fst (startIdleTransaction ''/next'' None hublessState) = None
   \<and> activities (snd (startIdleTransaction ''/next'' None hublessState)) = activities hublessState"
proof -
  have i: "isEnabled (initial (\<lambda>n. 0)) = (False, initial (\<lambda>n. 0))"
    by (simp add: isEnabled_def initial_def)
  show ?thesis
    using absent_prerequisites [of "initial (\<lambda>n. 0)" "''/next''" None None 0 None "''ok''"]
      absent_prerequisites [of discardedState "''xhr''" None None 0 None "''ok''"]
      absent_prerequisites [of hublessState "''/next''" None None 0 None "''ok''"]
    by (simp add: i discardedState_fields hublessState_gate)
qed

text \<open>
  The claim as stated has these operations leave the whole controller state unchanged.
  Started while the hub getter returns no hub, \<open>startIdleTransaction\<close> returns none but
  has finished the active transaction \<open>0\<close>; and with no transaction active,
  \<open>popActivity\<close> cancels the pending finish timer.
\<close>

theorem absent_prerequisites_counterexample:
  "getCurrentHub hublessState = Some ReturnsNothing
   \<and> activeTransaction hublessState = Some 0
   \<and> fst (startIdleTransaction ''/next'' None hublessState) = None
   \<and> calls (snd (startIdleTransaction ''/next'' None hublessState)) =
       calls hublessState @ [SpanFinish 0 True]
   \<and> activeTransaction discardedState = None
   \<and> timers discardedState =
       [\<lparr>handle = 2, scheduledAt = 500, delay = Some 500, callback = CbFinishIdle\<rparr>]
   \<and> timers (popActivity 1 None discardedState) = []"
proof -
  have s: "startIdleTransaction ''/next'' None hublessState =
      (None, (snd (isEnabled hublessState))\<lparr>calls := calls hublessState @ finishCalls hublessState\<rparr>)"
    by (rule startIdleTransaction_nohub) (simp_all add: hublessState_gate)
  have p: "timers (popActivity 1 None discardedState) =
      filter (\<lambda>t. handle t \<noteq> debounce discardedState) (timers discardedState) @
      (if AList.delete 1 (activities discardedState) = [] \<and> activeTransaction discardedState \<noteq> None
       then [finishTimer discardedState] else [])"
    by (rule popActivity_timers) (simp_all add: discardedState_fields)
  have p': "timers (popActivity 1 None discardedState) = []"
    unfolding p by (simp add: discardedState_fields)
  show ?thesis
    using p' by (simp add: s hublessState_gate discardedState_fields finishCalls_def)
qed

subsection \<open>Timers that fire\<close>

lemma fireTimer_last:
  assumes "timers s = ts @ [x]" "\<forall>t\<in>set ts. handle t \<noteq> handle x"
  shows "fireTimer (handle x) s =
     (case callback x of
        CbPopActivity ident spanData \<Rightarrow> popActivity ident spanData (s\<lparr>timers := ts\<rparr>)
      | CbFinishIdle \<Rightarrow> finishIdleTransaction (s\<lparr>timers := ts\<rparr>))"
proof -
  have f: "find (\<lambda>t. handle t = handle x) (ts @ [x]) = Some x"
    using assms(2) by (induction ts) auto
  have g: "filter (\<lambda>t. handle t \<noteq> handle x) ts = ts"
    using assms(2) by (induction ts) auto
  show ?thesis
    by (simp add: fireTimer_def assms(1) f g Let_def)
qed

lemma popActivity_schedule:
  assumes "ident \<noteq> 0" "fst (isEnabled s)"
  shows "debounce (popActivity ident d s) =
           (if AList.delete ident (activities s) = [] \<and> activeTransaction s \<noteq> None
            then nextTimer s else debounce s)"
    and "nextTimer (popActivity ident d s) =
           (if AList.delete ident (activities s) = [] \<and> activeTransaction s \<noteq> None
            then Suc (nextTimer s) else nextTimer s)"
  using assms
  by (auto simp add: popActivity_def split_def Let_def host_defs delete_absent
        split: option.splits)

lemma popActivity_spanless_calls:
  "map_of (activities s) ident = Some act \<Longrightarrow> span act = None \<Longrightarrow>
   calls (popActivity ident d s) = calls s"
  by (simp add: popActivity_def split_def Let_def host_defs)

subsection \<open>The bootstrap activity (C8)\<close>

text \<open>
  C8, as the code has it. A \<open>startIdleTransaction\<close> that returns a transaction has
  registered a span-less bootstrap activity under the next id and has scheduled one timer
  that pops it, with a delay equal to the configured idle timeout when that is not \<open>0\<close>,
  and of 100 ms when the idle timeout is \<open>0\<close> or there are no options. When nothing else
  is in the registry, the firing of that timer empties the registry and schedules the
  finish timer with the configured idle timeout, and the firing of the finish timer
  finishes the transaction with \<^verbatim>\<open>finish(true)\<close>.
\<close>

theorem startIdleTransaction_bootstrap:
  "fst (startIdleTransaction nm c s) = Some sp \<Longrightarrow>
     map_of (activities (snd (startIdleTransaction nm c s))) (currentIndex s) =
       Some \<lparr>name = ''idleTransactionStarted'', span = None\<rparr>
   \<and> timers (snd (startIdleTransaction nm c s)) =
       filter (\<lambda>t. handle t \<noteq> debounce s) (timers s) @
       [\<lparr>handle = nextTimer s, scheduledAt = now s,
         delay = Some (case options s of
                         None \<Rightarrow> 100
                       | Some opt \<Rightarrow> if idleTimeout opt \<noteq> 0 then idleTimeout opt else 100),
         callback = CbPopActivity (currentIndex s) None\<rparr>]
   \<and> (activities s = [] \<and> 0 < currentIndex s \<and> timersFresh s \<longrightarrow>
        activities (fireTimer (nextTimer s) (tick dt (snd (startIdleTransaction nm c s)))) = []
        \<and> timers (fireTimer (nextTimer s) (tick dt (snd (startIdleTransaction nm c s)))) =
            filter (\<lambda>t. handle t \<noteq> debounce s) (timers s) @
            [\<lparr>handle = Suc (nextTimer s), scheduledAt = now s + dt,
              delay = map_option idleTimeout (options s), callback = CbFinishIdle\<rparr>]
        \<and> calls (fireTimer (Suc (nextTimer s))
                   (tick dt' (fireTimer (nextTimer s) (tick dt (snd (startIdleTransaction nm c s)))))) =
            calls (snd (startIdleTransaction nm c s)) @ [SpanFinish sp True])"
proof -
  assume ret: "fst (startIdleTransaction nm c s) = Some sp"
  have en: "fst (isEnabled s)"
    using ret by (cases "fst (isEnabled s)") (simp_all add: startIdleTransaction_disabled)
  have hub: "getCurrentHub s = Some ReturnsHub"
    using ret en
    by (cases "getCurrentHub s = Some ReturnsHub") (simp_all add: startIdleTransaction_nohub)
  define ts where "ts = filter (\<lambda>t. handle t \<noteq> debounce s) (timers s)"
  define S where "S = snd (startIdleTransaction nm c s)"
  note eq = startIdleTransaction_success [OF en hub, of nm c]
  have sp: "sp = nextSpan s"
    using ret by (simp add: eq)
  have S: "activities S = AList.update (currentIndex s) bootstrapActivity (activities s)"
    "timers S = ts @ [bootstrapTimer s]" "activeTransaction S = Some sp"
    "enabled S = Some True" "debounce S = debounce s" "nextTimer S = Suc (nextTimer s)"
    "now S = now s" "options S = options s"
    using isEnabled_cached [OF en] by (simp_all add: S_def eq ts_def sp)
  have reg: "map_of (activities S) (currentIndex s) = Some bootstrapActivity"
    by (simp add: S AList.update_conv')
  have part1: "map_of (activities S) (currentIndex s) =
       Some \<lparr>name = ''idleTransactionStarted'', span = None\<rparr>"
    using reg by (simp add: bootstrapActivity_def)
  have part2: "timers S =
       filter (\<lambda>t. handle t \<noteq> debounce s) (timers s) @
       [\<lparr>handle = nextTimer s, scheduledAt = now s,
         delay = Some (case options s of
                         None \<Rightarrow> 100
                       | Some opt \<Rightarrow> if idleTimeout opt \<noteq> 0 then idleTimeout opt else 100),
         callback = CbPopActivity (currentIndex s) None\<rparr>]"
    by (simp add: S ts_def bootstrapTimer_def bootstrapDelay_def)
  have part3:
    "activities (fireTimer (nextTimer s) (tick dt S)) = []
     \<and> timers (fireTimer (nextTimer s) (tick dt S)) =
         ts @ [\<lparr>handle = Suc (nextTimer s), scheduledAt = now s + dt,
                 delay = map_option idleTimeout (options s), callback = CbFinishIdle\<rparr>]
     \<and> calls (fireTimer (Suc (nextTimer s)) (tick dt' (fireTimer (nextTimer s) (tick dt S)))) =
         calls S @ [SpanFinish sp True]"
    if empty: "activities s = []" and pos: "0 < currentIndex s" and fresh: "timersFresh s"
  proof -
    have old: "\<forall>t\<in>set ts. handle t < nextTimer s"
      using fresh by (simp add: ts_def timersFresh_def)
    have old1: "\<forall>t\<in>set ts. handle t \<noteq> nextTimer s"
      and old2: "\<forall>t\<in>set ts. handle t \<noteq> Suc (nextTimer s)"
      using old by fastforce+
    define U where "U = (tick dt S)\<lparr>timers := ts\<rparr>"
    have fire1: "fireTimer (nextTimer s) (tick dt S) = popActivity (currentIndex s) None U"
      using fireTimer_last [of "tick dt S" ts "bootstrapTimer s"] old1
      by (simp add: tick_def S bootstrapTimer_def U_def)
    have U: "isEnabled U = (True, U)" "activities U = [(currentIndex s, bootstrapActivity)]"
      "activeTransaction U = Some sp" "debounce U = debounce s" "timers U = ts"
      "nextTimer U = Suc (nextTimer s)" "now U = now s + dt" "options U = options s"
      "calls U = calls S"
      by (simp_all add: U_def tick_def S empty)
    have n0: "currentIndex s \<noteq> 0" using pos by simp
    have e1: "fst (isEnabled U)" by (simp add: U)
    define V where "V = popActivity (currentIndex s) None U"
    have ff: "filter (\<lambda>t. handle t \<noteq> debounce s) ts = ts"
      by (simp add: ts_def)
    have V: "activities V = []"
      "timers V = ts @ [\<lparr>handle = Suc (nextTimer s), scheduledAt = now s + dt,
                 delay = map_option idleTimeout (options s), callback = CbFinishIdle\<rparr>]"
      "activeTransaction V = Some sp" "calls V = calls S"
      unfolding V_def
      using popActivity_activities [OF n0 e1, of None] popActivity_timers [OF n0 e1, of None]
        popActivity_spanless_calls [of U "currentIndex s" bootstrapActivity None]
      by (simp_all add: U ff finishTimer_def bootstrapActivity_def)
    define ft where "ft = \<lparr>handle = Suc (nextTimer s), scheduledAt = now s + dt,
                 delay = map_option idleTimeout (options s), callback = CbFinishIdle\<rparr>"
    have fire2: "fireTimer (handle ft) (tick dt' V) = finishIdleTransaction ((tick dt' V)\<lparr>timers := ts\<rparr>)"
      using fireTimer_last [of "tick dt' V" ts ft] old2
      by (simp add: tick_def V ft_def)
    have "calls (fireTimer (Suc (nextTimer s)) (tick dt' V)) = calls S @ [SpanFinish sp True]"
      using fire2 by (simp add: ft_def finishIdleTransaction_eq finishCalls_def tick_def V)
    then show ?thesis
      using V by (simp add: fire1 V_def [symmetric])
  qed
  show ?thesis
    using part1 part2 part3 unfolding S_def ts_def by blast
qed

lemma setupState_eq:
  "setupState =
     (initial (\<lambda>n. 0))\<lparr>enabled := Some True, options := Some defaults,
       getCurrentHub := Some ReturnsHub, randomDraws := 1,
       handlers := [HandlerXHR, HandlerFetch, HandlerHistory],
       visibilityListener := True, eventProcessors := [ReturnsHub]\<rparr>"
  by (simp add: setupState_def initial_def defaults_def construct_def setupOnce_def
        addInstrumentationHandler_def isEnabled_def Let_def)

lemma zeroIdleState_eq:
  "zeroIdleState =
     (initial (\<lambda>n. 0))\<lparr>enabled := Some True, options := Some (defaults\<lparr>idleTimeout := 0\<rparr>),
       getCurrentHub := Some ReturnsHub, randomDraws := 1,
       handlers := [HandlerXHR, HandlerFetch, HandlerHistory],
       visibilityListener := True, eventProcessors := [ReturnsHub]\<rparr>"
  by (simp add: zeroIdleState_def initial_def defaults_def construct_def setupOnce_def
        addInstrumentationHandler_def isEnabled_def Let_def)

lemma setupState_fields:
  "isEnabled setupState = (True, setupState)" "getCurrentHub setupState = Some ReturnsHub"
  "activities setupState = []" "timers setupState = []" "currentIndex setupState = 1"
  "nextTimer setupState = 1" "nextSpan setupState = 0" "debounce setupState = 0"
  "now setupState = 0" "options setupState = Some defaults" "calls setupState = []"
  "activeTransaction setupState = None"
  by (simp_all add: setupState_eq initial_def)

lemma zeroIdleState_fields:
  "isEnabled zeroIdleState = (True, zeroIdleState)" "getCurrentHub zeroIdleState = Some ReturnsHub"
  "activities zeroIdleState = []" "timers zeroIdleState = []" "currentIndex zeroIdleState = 1"
  "nextTimer zeroIdleState = 1" "nextSpan zeroIdleState = 0" "debounce zeroIdleState = 0"
  "now zeroIdleState = 0" "options zeroIdleState = Some (defaults\<lparr>idleTimeout := 0\<rparr>)"
  "calls zeroIdleState = []" "activeTransaction zeroIdleState = None"
  by (simp_all add: zeroIdleState_eq initial_def)

theorem startIdleTransaction_bootstrap_witness:
  "fst (startIdleTransaction ''/home'' None setupState) = Some 0
   \<and> map_of (activities (snd (startIdleTransaction ''/home'' None setupState))) 1 =
       Some \<lparr>name = ''idleTransactionStarted'', span = None\<rparr>
   \<and> timers (snd (startIdleTransaction ''/home'' None setupState)) =
       [\<lparr>handle = 1, scheduledAt = 0, delay = Some 500, callback = CbPopActivity 1 None\<rparr>]
   \<and> timers (fireTimer 1 (tick 500 (snd (startIdleTransaction ''/home'' None setupState)))) =
       [\<lparr>handle = 2, scheduledAt = 500, delay = Some 500, callback = CbFinishIdle\<rparr>]
   \<and> calls (fireTimer 2 (tick 500
              (fireTimer 1 (tick 500 (snd (startIdleTransaction ''/home'' None setupState)))))) =
       calls (snd (startIdleTransaction ''/home'' None setupState)) @ [SpanFinish 0 True]"
proof -
  have eq: "startIdleTransaction ''/home'' None setupState =
     (Some 0,
      setupState
        \<lparr>calls := [HubStartSpan (transactionContext ''/home'' None) True None 0, ScopeSetSpan 0],
         nextSpan := 1, activeTransaction := Some 0, scopeSpan := Some 0,
         timers := [\<lparr>handle = 1, scheduledAt = 0, delay = Some 500,
                     callback = CbPopActivity 1 None\<rparr>],
         nextTimer := 2,
         activities := [(1, \<lparr>name = ''idleTransactionStarted'', span = None\<rparr>)],
         currentIndex := 2\<rparr>)"
    using startIdleTransaction_success [of setupState "''/home''" None]
    by (simp add: setupState_fields finishCalls_def bootstrapTimer_def bootstrapDelay_def
          bootstrapActivity_def defaults_def)
  have fresh: "timersFresh setupState"
    by (simp add: timersFresh_def setupState_fields)
  have ret: "fst (startIdleTransaction ''/home'' None setupState) = Some 0"
    by (simp add: eq)
  show ?thesis
    using startIdleTransaction_bootstrap [OF ret, of 500 500] fresh ret
    by (simp add: setupState_fields defaults_def numeral_2_eq_2)
qed

text \<open>
  The claim as stated has the bootstrap activity popped after exactly the configured idle
  timeout. With an idle timeout of \<open>0\<close> configured, the timer is set to 100 ms.
\<close>

theorem startIdleTransaction_bootstrap_counterexample:
  "map_option idleTimeout (options zeroIdleState) = Some 0
   \<and> fst (startIdleTransaction ''/home'' None zeroIdleState) = Some 0
   \<and> timers (snd (startIdleTransaction ''/home'' None zeroIdleState)) =
       [\<lparr>handle = 1, scheduledAt = 0, delay = Some 100, callback = CbPopActivity 1 None\<rparr>]"
  using startIdleTransaction_success [of zeroIdleState "''/home''" None]
  by (simp add: zeroIdleState_fields bootstrapTimer_def bootstrapDelay_def)

subsection \<open>The invariant of the timer table\<close>

lemma finishTimerInv_cong:
  "timers s' = timers s \<Longrightarrow> nextTimer s' = nextTimer s \<Longrightarrow> debounce s' = debounce s \<Longrightarrow>
   finishTimerInv s' = finishTimerInv s"
  by (simp add: finishTimerInv_def timersFresh_def)

lemma finishTimerInv_isEnabled [simp]:
  "finishTimerInv (snd (isEnabled s)) = finishTimerInv s"
  by (rule finishTimerInv_cong) simp_all

lemma finishTimerInv_initial: "finishTimerInv (initial rnd)"
  by (simp add: finishTimerInv_def timersFresh_def initial_def)

lemma at_most_one:
  "distinct (map f xs) \<Longrightarrow> \<forall>x\<in>set xs. f x = c \<Longrightarrow> length xs \<le> Suc 0"
proof (cases xs)
  case Nil
  then show ?thesis by simp
next
  case (Cons x ys)
  assume d: "distinct (map f xs)" and c: "\<forall>x\<in>set xs. f x = c"
  show ?thesis
  proof (cases ys)
    case Nil
    then show ?thesis using Cons by simp
  next
    case (Cons y zs)
    then have "f x = f y" using c \<open>xs = x # ys\<close> by simp
    then show ?thesis using d \<open>xs = x # ys\<close> Cons by simp
  qed
qed

lemma finishTimerInv_at_most_one:
  assumes "finishTimerInv s"
  shows "length (pendingFinishTimers s) \<le> 1"
proof -
  have "distinct (map handle (pendingFinishTimers s))"
    using assms by (simp add: finishTimerInv_def pendingFinishTimers_def distinct_map_filter)
  moreover have "\<forall>t\<in>set (pendingFinishTimers s). handle t = debounce s"
    using assms by (simp add: finishTimerInv_def pendingFinishTimers_def)
  ultimately show ?thesis
    using at_most_one [of handle "pendingFinishTimers s" "debounce s"] by simp
qed

text \<open>Cancelling the timer named by \<open>debounce\<close> leaves no finish timer pending.\<close>

lemma cleared_no_finish:
  assumes "finishTimerInv s"
  shows "filter (\<lambda>t. callback t = CbFinishIdle) (filter (\<lambda>t. handle t \<noteq> debounce s) (timers s)) = []"
  using assms by (auto simp: finishTimerInv_def filter_empty_conv)

lemma finishTimerInv_append:
  assumes "finishTimerInv s"
    and "timers s' = filter (\<lambda>t. handle t \<noteq> debounce s) (timers s) @ [x]"
    and "handle x = nextTimer s" "nextTimer s' = Suc (nextTimer s)"
    and "callback x = CbFinishIdle \<longrightarrow> debounce s' = nextTimer s"
  shows "finishTimerInv s'"
  using assms
  by (auto simp: finishTimerInv_def timersFresh_def distinct_map_filter less_Suc_eq)

lemma finishTimerInv_filter:
  assumes "finishTimerInv s"
    and "timers s' = filter P (timers s)" "nextTimer s' = nextTimer s" "debounce s' = debounce s"
  shows "finishTimerInv s'"
  using assms
  by (auto simp: finishTimerInv_def timersFresh_def distinct_map_filter)

lemma finishTimerInv_popActivity:
  assumes "finishTimerInv s"
  shows "finishTimerInv (popActivity ident d s)"
proof (cases "ident = 0 \<or> \<not> fst (isEnabled s)")
  case True
  then show ?thesis using assms by (simp add: popActivity_guard)
next
  case False
  then have n0: "ident \<noteq> 0" and en: "fst (isEnabled s)" by simp_all
  note t = popActivity_timers [OF n0 en, of d] and sch = popActivity_schedule [OF n0 en, of d]
  show ?thesis
  proof (cases "AList.delete ident (activities s) = [] \<and> activeTransaction s \<noteq> None")
    case True
    have "timers (popActivity ident d s) =
        filter (\<lambda>t. handle t \<noteq> debounce s) (timers s) @ [finishTimer s]"
      and "nextTimer (popActivity ident d s) = Suc (nextTimer s)"
      and "debounce (popActivity ident d s) = nextTimer s"
      by (simp_all only: t sch if_P [OF True])
    then show ?thesis
      by (intro finishTimerInv_append [OF assms, of _ "finishTimer s"])
         (simp_all add: finishTimer_def)
  next
    case False
    have "timers (popActivity ident d s) = filter (\<lambda>t. handle t \<noteq> debounce s) (timers s)"
      and "nextTimer (popActivity ident d s) = nextTimer s"
      and "debounce (popActivity ident d s) = debounce s"
      by (simp_all only: t sch if_not_P [OF False] append_Nil2)
    then show ?thesis
      by (intro finishTimerInv_filter [OF assms, of _ "\<lambda>t. handle t \<noteq> debounce s"])
  qed
qed

lemma finishTimerInv_pushActivity:
  assumes "finishTimerInv s"
  shows "finishTimerInv (snd (pushActivity nm c a s))"
proof (cases "\<not> fst (isEnabled s) \<or> activeTransaction s = None")
  case True
  then show ?thesis using assms by (simp add: pushActivity_guard)
next
  case False
  then have st: "timers (snd (pushActivity nm c a s)) = pushedTimers a s"
    "nextTimer (snd (pushActivity nm c a s)) = (if a = None then nextTimer s else Suc (nextTimer s))"
    using pushActivity_stored_timers [of s nm c a] by simp_all
  show ?thesis
  proof (cases a)
    case None
    show ?thesis
      by (rule finishTimerInv_filter [OF assms, of _ "\<lambda>t. handle t \<noteq> debounce s"])
         (use None st in \<open>simp_all add: pushedTimers_def\<close>)
  next
    case (Some dl)
    show ?thesis
      by (rule finishTimerInv_append [OF assms, of _
            "\<lparr>handle = nextTimer s, scheduledAt = now s, delay = Some dl,
              callback = CbPopActivity (currentIndex s) (Some deadlineExceeded)\<rparr>"])
         (use Some st in \<open>simp_all add: pushedTimers_def\<close>)
  qed
qed

lemma finishTimerInv_finishIdleTransaction [simp]:
  "finishTimerInv (finishIdleTransaction s) = finishTimerInv s"
  by (rule finishTimerInv_cong) (simp_all add: finishIdleTransaction_eq)

lemma finishTimerInv_startIdleTransaction:
  assumes "finishTimerInv s"
  shows "finishTimerInv (snd (startIdleTransaction nm c s))"
proof (cases "fst (isEnabled s)")
  case False
  then show ?thesis using assms by (simp add: startIdleTransaction_disabled)
next
  case en: True
  show ?thesis
  proof (cases "getCurrentHub s = Some ReturnsHub")
    case False
    have "finishTimerInv ((snd (isEnabled s))\<lparr>calls := calls s @ finishCalls s\<rparr>) = finishTimerInv s"
      by (rule finishTimerInv_cong) simp_all
    then show ?thesis using assms en False by (simp add: startIdleTransaction_nohub)
  next
    case True
    show ?thesis
      by (rule finishTimerInv_append [OF assms, of _ "bootstrapTimer s"])
         (simp_all add: startIdleTransaction_success [OF en True] bootstrapTimer_def)
  qed
qed

lemma finishTimerInv_fireTimer:
  assumes "finishTimerInv s"
  shows "finishTimerInv (fireTimer h s)"
proof (cases "find (\<lambda>t. handle t = h) (timers s)")
  case None
  then show ?thesis using assms by (simp add: fireTimer_def)
next
  case (Some x)
  have inv: "finishTimerInv (s\<lparr>timers := filter (\<lambda>t. handle t \<noteq> h) (timers s)\<rparr>)"
    by (rule finishTimerInv_filter [OF assms, of _ "\<lambda>t. handle t \<noteq> h"]) simp_all
  show ?thesis
    using Some inv
    by (cases "callback x") (simp_all add: fireTimer_def finishTimerInv_popActivity)
qed

lemma finishTimerInv_update [simp]:
  "finishTimerInv (s\<lparr>getCurrentHub := g\<rparr>) = finishTimerInv s"
  "finishTimerInv (s\<lparr>handlers := hs\<rparr>) = finishTimerInv s"
  "finishTimerInv (s\<lparr>visibilityListener := v\<rparr>) = finishTimerInv s"
  "finishTimerInv (s\<lparr>eventProcessors := e\<rparr>) = finishTimerInv s"
  "finishTimerInv (s\<lparr>options := opt\<rparr>) = finishTimerInv s"
  "finishTimerInv (s\<lparr>now := n\<rparr>) = finishTimerInv s"
  "finishTimerInv (s\<lparr>calls := cs\<rparr>) = finishTimerInv s"
  "finishTimerInv (s\<lparr>activeTransaction := tr, activities := reg\<rparr>) = finishTimerInv s"
  by (simp_all add: finishTimerInv_def timersFresh_def)

lemma finishTimerInv_setupOnce:
  assumes "finishTimerInv s"
  shows "finishTimerInv (snd (setupOnce getter href hasDocument nativeFetch s))"
  using assms
  by (simp add: setupOnce_def split_def Let_def addInstrumentationHandler_def
        finishTimerInv_startIdleTransaction split: option.splits)

lemma finishTimerInv_historyCallback:
  assumes "finishTimerInv s"
  shows "finishTimerInv (snd (historyCallback href s))"
  using assms
  by (simp add: historyCallback_def finishTimerInv_startIdleTransaction split: option.splits)

lemma finishTimerInv_step:
  assumes "finishTimerInv s"
  shows "finishTimerInv (step act s)"
proof (cases act)
  case (Construct opts)
  then show ?thesis using assms by (simp add: construct_def)
next
  case (SetupOnce g h d f)
  then show ?thesis using assms by (simp add: finishTimerInv_setupOnce)
next
  case (StartIdleTransaction nm c)
  then show ?thesis using assms by (simp add: finishTimerInv_startIdleTransaction)
next
  case FinishIdleTransaction
  then show ?thesis using assms by simp
next
  case (SetTransactionStatus st)
  then show ?thesis using assms
    by (simp add: setTransactionStatus_def record_call_def split: option.splits)
next
  case (UpdateTransactionName nm)
  then show ?thesis using assms
    by (simp add: updateTransactionName_def record_call_def split: option.splits hubGetter.splits)
next
  case (PushActivity nm c a)
  then show ?thesis using assms by (simp add: finishTimerInv_pushActivity)
next
  case (PopActivity i d)
  then show ?thesis using assms by (simp add: finishTimerInv_popActivity)
next
  case (FireTimer h)
  then show ?thesis using assms by (simp add: finishTimerInv_fireTimer)
next
  case (VisibilityChange hidden)
  then show ?thesis using assms by (simp add: onVisibilityChange_def)
next
  case (HistoryChange href)
  then show ?thesis using assms by (simp add: finishTimerInv_historyCallback)
next
  case (ProcessEvent self e)
  then show ?thesis
    using assms notifyEventProcessors_state [of "eventProcessors s" self e s] by auto
next
  case (Tick dt)
  then show ?thesis using assms by (simp add: tick_def)
qed

lemma finishTimerInv_run:
  "finishTimerInv s \<Longrightarrow> finishTimerInv (run acts s)"
  by (induction acts arbitrary: s) (simp_all add: finishTimerInv_step)

subsection \<open>Where finish timers come from\<close>

lemma pending_update [simp]:
  "pendingFinishTimers (s\<lparr>getCurrentHub := g\<rparr>) = pendingFinishTimers s"
  "pendingFinishTimers (s\<lparr>handlers := hs\<rparr>) = pendingFinishTimers s"
  "pendingFinishTimers (s\<lparr>visibilityListener := v\<rparr>) = pendingFinishTimers s"
  "pendingFinishTimers (s\<lparr>eventProcessors := e\<rparr>) = pendingFinishTimers s"
  "pendingFinishTimers (s\<lparr>options := opt\<rparr>) = pendingFinishTimers s"
  "pendingFinishTimers (s\<lparr>now := n\<rparr>) = pendingFinishTimers s"
  "pendingFinishTimers (s\<lparr>calls := cs\<rparr>) = pendingFinishTimers s"
  "pendingFinishTimers (s\<lparr>activeTransaction := tr, activities := reg\<rparr>) = pendingFinishTimers s"
  "pendingFinishTimers (snd (isEnabled s)) = pendingFinishTimers s"
  by (simp_all add: pendingFinishTimers_def)

lemma pending_pushActivity:
  "set (pendingFinishTimers (snd (pushActivity nm c a s))) \<subseteq> set (pendingFinishTimers s)"
proof (cases "\<not> fst (isEnabled s) \<or> activeTransaction s = None")
  case True
  then show ?thesis by (simp add: pushActivity_guard)
next
  case False
  then have "timers (snd (pushActivity nm c a s)) = pushedTimers a s"
    using pushActivity_stored_timers [of s nm c a] by simp
  then show ?thesis
    by (auto simp: pendingFinishTimers_def pushedTimers_def split: option.splits)
qed

lemma pending_startIdleTransaction:
  "pendingFinishTimers s' = pendingFinishTimers s \<Longrightarrow>
   set (pendingFinishTimers (snd (startIdleTransaction nm c s'))) \<subseteq> set (pendingFinishTimers s)"
proof -
  have "set (pendingFinishTimers (snd (startIdleTransaction nm c s'))) \<subseteq> set (pendingFinishTimers s')"
  proof (cases "fst (isEnabled s')")
    case False
    then show ?thesis by (simp add: startIdleTransaction_disabled)
  next
    case en: True
    show ?thesis
    proof (cases "getCurrentHub s' = Some ReturnsHub")
      case False
      then show ?thesis
        using en by (simp add: startIdleTransaction_nohub pendingFinishTimers_def)
    next
      case True
      show ?thesis
        by (auto simp: startIdleTransaction_success [OF en True] pendingFinishTimers_def
              bootstrapTimer_def)
    qed
  qed
  moreover assume "pendingFinishTimers s' = pendingFinishTimers s"
  ultimately show ?thesis by simp
qed

lemma pending_step:
  assumes "\<forall>i d. act \<noteq> PopActivity i d" "\<forall>h. act \<noteq> FireTimer h"
  shows "set (pendingFinishTimers (step act s)) \<subseteq> set (pendingFinishTimers s)"
proof (cases act)
  case (Construct opts)
  then show ?thesis by (simp add: construct_def)
next
  case (SetupOnce g h d f)
  then show ?thesis
    by (simp add: setupOnce_def split_def Let_def addInstrumentationHandler_def
          pending_startIdleTransaction split: option.splits)
next
  case (StartIdleTransaction nm c)
  then show ?thesis by (simp add: pending_startIdleTransaction)
next
  case FinishIdleTransaction
  then show ?thesis by (simp add: finishIdleTransaction_eq)
next
  case (SetTransactionStatus st)
  then show ?thesis
    by (simp add: setTransactionStatus_def record_call_def split: option.splits)
next
  case (UpdateTransactionName nm)
  then show ?thesis
    by (simp add: updateTransactionName_def record_call_def split: option.splits hubGetter.splits)
next
  case (PushActivity nm c a)
  then show ?thesis by (simp add: pending_pushActivity)
next
  case (PopActivity i d)
  then show ?thesis using assms by simp
next
  case (FireTimer h)
  then show ?thesis using assms by simp
next
  case (VisibilityChange hidden)
  then show ?thesis by (simp add: onVisibilityChange_def)
next
  case (HistoryChange href)
  then show ?thesis
    by (simp add: historyCallback_def pending_startIdleTransaction split: option.splits)
next
  case (ProcessEvent self e)
  then show ?thesis
    using notifyEventProcessors_state [of "eventProcessors s" self e s] by auto
next
  case (Tick dt)
  then show ?thesis by (simp add: tick_def)
qed

lemma idleState_inv: "finishTimerInv idleState"
  by (simp add: finishTimerInv_def timersFresh_def idleState_eq pageloadState_eq)

subsection \<open>At most one pending finish timer (C9)\<close>

text \<open>
  C9. In every state that a run of the controller reaches from its initial state, at most
  one finish timer is pending. In a state satisfying the invariant of the timer table, a
  \<open>pushActivity\<close> that gets past its guards leaves no finish timer pending, and a
  \<open>popActivity\<close> that gets past its guard leaves none pending but the one it schedules
  itself, which it does exactly when the registry is then empty and a transaction is
  active. No action other than \<open>popActivity\<close>, called directly or by a timer, adds a finish
  timer.
\<close>

theorem one_pending_finish_timer:
  "length (pendingFinishTimers (run acts (initial rnd))) \<le> 1
   \<and> (finishTimerInv s \<longrightarrow>
        (fst (pushActivity nm c a s) \<noteq> 0 \<longrightarrow>
           pendingFinishTimers (snd (pushActivity nm c a s)) = [])
        \<and> (fst (isEnabled s) \<and> ident \<noteq> 0 \<longrightarrow>
             pendingFinishTimers (popActivity ident d s) =
               (if AList.delete ident (activities s) = [] \<and> activeTransaction s \<noteq> None
                then [finishTimer s] else [])))
   \<and> ((\<forall>i d. act \<noteq> PopActivity i d) \<and> (\<forall>h. act \<noteq> FireTimer h) \<longrightarrow>
        set (pendingFinishTimers (step act s)) \<subseteq> set (pendingFinishTimers s))"
proof -
  have reach: "length (pendingFinishTimers (run acts (initial rnd))) \<le> 1"
    by (intro finishTimerInv_at_most_one finishTimerInv_run finishTimerInv_initial)
  have push: "pendingFinishTimers (snd (pushActivity nm c a s)) = []"
    if inv: "finishTimerInv s" and ret: "fst (pushActivity nm c a s) \<noteq> 0"
  proof -
    have "\<not> (\<not> fst (isEnabled s) \<or> activeTransaction s = None)"
    proof
      assume "\<not> fst (isEnabled s) \<or> activeTransaction s = None"
      then have "pushActivity nm c a s = (0, snd (isEnabled s))" by (rule pushActivity_guard)
      then show False using ret by simp
    qed
    then have "timers (snd (pushActivity nm c a s)) = pushedTimers a s"
      using pushActivity_stored_timers [of s nm c a] by simp
    then show ?thesis
      using cleared_no_finish [OF inv]
      by (simp add: pendingFinishTimers_def pushedTimers_def split: option.splits)
  qed
  have pop: "pendingFinishTimers (popActivity ident d s) =
      (if AList.delete ident (activities s) = [] \<and> activeTransaction s \<noteq> None
       then [finishTimer s] else [])"
    if inv: "finishTimerInv s" and en: "fst (isEnabled s)" and n0: "ident \<noteq> 0"
    using cleared_no_finish [OF inv]
    by (simp add: pendingFinishTimers_def popActivity_timers [OF n0 en] finishTimer_def)
  show ?thesis
    using reach push pop pending_step [of act s] by blast
qed

theorem one_pending_finish_timer_witness:
  "length (pendingFinishTimers
      (run [Construct defaults, SetupOnce ReturnsHub (Some ''http://localhost/'') True True,
            Tick 500, FireTimer 1, Tick 300, PopActivity 1 None] (initial (\<lambda>n. 0)))) \<le> 1
   \<and> pendingFinishTimers (popActivity 1 None idleState) =
       [\<lparr>handle = 3, scheduledAt = 800, delay = Some 500, callback = CbFinishIdle\<rparr>]
   \<and> pendingFinishTimers (snd (pushActivity ''xhr'' None None idleState)) = []
   \<and> set (pendingFinishTimers (step (StartIdleTransaction ''/next'' None) idleState))
       \<subseteq> set (pendingFinishTimers idleState)"
proof -
  have f: "isEnabled idleState = (True, idleState)" "activities idleState = []"
    "activeTransaction idleState = Some 0" "nextTimer idleState = 3" "now idleState = 800"
    "options idleState = Some defaults" "currentIndex idleState = 2"
    by (simp_all add: idleState_eq pageloadState_eq)
  have p: "fst (pushActivity ''xhr'' None None idleState) = 2"
    using pushActivity_stored_timers [of idleState "''xhr''" None None] by (simp add: f)
  show ?thesis
    using one_pending_finish_timer
      [of "[Construct defaults, SetupOnce ReturnsHub (Some ''http://localhost/'') True True,
            Tick 500, FireTimer 1, Tick 300, PopActivity 1 None]" "\<lambda>n. 0"
          idleState "''xhr''" None None 1 None "StartIdleTransaction ''/next'' None"]
      idleState_inv p
    by (simp add: f finishTimer_def defaults_def)
qed

subsection \<open>Calls on a span that is no longer held\<close>

lemma finishesOf_append [simp]: "finishesOf t (cs @ ds) = finishesOf t cs @ finishesOf t ds"
  by (simp add: finishesOf_def)

lemma finishesOf_setSpanData:
  "finishesOf t (calls (setSpanData sp kvs s)) = finishesOf t (calls s)"
  by (induction sp kvs s rule: setSpanData.induct)
     (simp_all add: Let_def record_call_def finishesOf_def)

lemma unreferenced_cong:
  "nextSpan s' = nextSpan s \<Longrightarrow> activeTransaction s' = activeTransaction s \<Longrightarrow>
   activities s' = activities s \<Longrightarrow> unreferenced t s' = unreferenced t s"
  by (simp add: unreferenced_def)

lemma unreferenced_update [simp]:
  "unreferenced t (s\<lparr>getCurrentHub := g\<rparr>) = unreferenced t s"
  "unreferenced t (s\<lparr>handlers := hs\<rparr>) = unreferenced t s"
  "unreferenced t (s\<lparr>visibilityListener := v\<rparr>) = unreferenced t s"
  "unreferenced t (s\<lparr>eventProcessors := e\<rparr>) = unreferenced t s"
  "unreferenced t (s\<lparr>options := opt\<rparr>) = unreferenced t s"
  "unreferenced t (s\<lparr>now := n\<rparr>) = unreferenced t s"
  "unreferenced t (s\<lparr>calls := cs\<rparr>) = unreferenced t s"
  "unreferenced t (s\<lparr>timers := ts\<rparr>) = unreferenced t s"
  "unreferenced t (snd (isEnabled s)) = unreferenced t s"
  by (simp_all add: unreferenced_def)

lemma list_all_delete:
  "list_all P al \<Longrightarrow> list_all P (AList.delete k al)"
  by (simp add: AList.delete_eq list_all_iff)

lemma list_all_update:
  "list_all P al \<Longrightarrow> P (k, v) \<Longrightarrow> list_all P (AList.update k v al)"
  by (induction al) (auto simp: list_all_iff)

lemma popActivity_nextSpan [simp]:
  "nextSpan (popActivity ident d s) = nextSpan s"
  by (simp add: popActivity_def split_def Let_def host_defs split: option.splits)

lemma popActivity_unreferenced:
  assumes "unreferenced t s"
  shows "unreferenced t (popActivity ident d s)"
    and "finishesOf t (calls (popActivity ident d s)) = finishesOf t (calls s)"
proof -
  show "unreferenced t (popActivity ident d s)"
  proof (cases "ident = 0 \<or> \<not> fst (isEnabled s)")
    case True
    then show ?thesis using assms by (simp add: popActivity_guard)
  next
    case False
    then show ?thesis
      using assms by (simp add: unreferenced_def popActivity_activities list_all_delete)
  qed
  have other: "sp \<noteq> t" if "map_of (activities s) ident = Some act" "span act = Some sp" for act sp
  proof -
    have "(ident, act) \<in> set (activities s)" using that(1) by (rule map_of_SomeD)
    then show ?thesis using assms that(2) by (auto simp: unreferenced_def list_all_iff)
  qed
  show "finishesOf t (calls (popActivity ident d s)) = finishesOf t (calls s)"
    using other
    by (auto simp: popActivity_def split_def Let_def host_defs finishesOf_setSpanData
          split: option.splits)
       (simp_all add: finishesOf_def)
qed

lemma pushActivity_unreferenced:
  assumes "unreferenced t s"
  shows "unreferenced t (snd (pushActivity nm c a s)) \<and>
         finishesOf t (calls (snd (pushActivity nm c a s))) = finishesOf t (calls s)"
proof (cases nm c a s rule: pushActivity_cases)
  case guard
  then show ?thesis using assms by simp
next
  case marker
  show ?thesis
    using assms
    by (simp add: pushActivity_marker [OF marker] unreferenced_def list_all_update)
next
  case (span ctx)
  show ?thesis
    using assms
    by (simp add: pushActivity_span [OF span] unreferenced_def list_all_update finishesOf_def)
next
  case (nohub ctx)
  show ?thesis
    using assms by (simp add: pushActivity_nohub [OF nohub] unreferenced_def)
qed

lemma finishIdleTransaction_unreferenced:
  assumes "unreferenced t s"
  shows "unreferenced t (finishIdleTransaction s) \<and>
         finishesOf t (calls (finishIdleTransaction s)) = finishesOf t (calls s)"
  using assms
  by (auto simp: finishIdleTransaction_eq finishCalls_def unreferenced_def finishesOf_def
        split: option.splits)

lemma startIdleTransaction_unreferenced:
  assumes "unreferenced t s"
  shows "unreferenced t (snd (startIdleTransaction nm c s)) \<and>
         finishesOf t (calls (snd (startIdleTransaction nm c s))) = finishesOf t (calls s)"
proof (cases "fst (isEnabled s)")
  case False
  then show ?thesis using assms by (simp add: startIdleTransaction_disabled)
next
  case en: True
  have fin: "finishesOf t (finishCalls s) = []"
    using assms by (auto simp: finishCalls_def unreferenced_def finishesOf_def split: option.splits)
  show ?thesis
  proof (cases "getCurrentHub s = Some ReturnsHub")
    case False
    then show ?thesis
      using assms en fin by (simp add: startIdleTransaction_nohub)
  next
    case True
    have "list_all (\<lambda>(k, act). span act \<noteq> Some t)
            (AList.update (currentIndex s) bootstrapActivity (activities s))"
      using assms by (intro list_all_update) (simp_all add: unreferenced_def bootstrapActivity_def)
    then show ?thesis
      using assms fin
      by (simp add: startIdleTransaction_success [OF en True] unreferenced_def)
         (simp add: finishesOf_def)
  qed
qed

lemma fireTimer_unreferenced:
  assumes "unreferenced t s"
  shows "unreferenced t (fireTimer h s) \<and>
         finishesOf t (calls (fireTimer h s)) = finishesOf t (calls s)"
proof (cases "find (\<lambda>x. handle x = h) (timers s)")
  case None
  then show ?thesis using assms by (simp add: fireTimer_def)
next
  case (Some x)
  define s1 where "s1 = s\<lparr>timers := filter (\<lambda>x. handle x \<noteq> h) (timers s)\<rparr>"
  have u: "unreferenced t s1" and c: "calls s1 = calls s"
    using assms by (simp_all add: s1_def)
  show ?thesis
  proof (cases "callback x")
    case (CbPopActivity i d)
    then have "fireTimer h s = popActivity i d s1"
      using Some by (simp add: fireTimer_def s1_def)
    then show ?thesis using popActivity_unreferenced [OF u, of i d] c by simp
  next
    case CbFinishIdle
    then have "fireTimer h s = finishIdleTransaction s1"
      using Some by (simp add: fireTimer_def s1_def)
    then show ?thesis using finishIdleTransaction_unreferenced [OF u] c by simp
  qed
qed

lemma setupOnce_unreferenced:
  assumes "unreferenced t s"
  shows "unreferenced t (snd (setupOnce getter href hasDocument nativeFetch s)) \<and>
         finishesOf t (calls (snd (setupOnce getter href hasDocument nativeFetch s))) =
           finishesOf t (calls s)"
proof -
  have start: "unreferenced t (snd (startIdleTransaction nm c s')) \<and>
      finishesOf t (calls (snd (startIdleTransaction nm c s'))) = finishesOf t (calls s)"
    if "unreferenced t s'" "calls s' = calls s" for nm c s'
    using startIdleTransaction_unreferenced [OF that(1), of nm c] that(2) by simp
  show ?thesis
    using assms
    by (simp add: setupOnce_def split_def Let_def addInstrumentationHandler_def start
          split: option.splits)
qed

lemma step_unreferenced:
  assumes "unreferenced t s"
  shows "unreferenced t (step act s) \<and> finishesOf t (calls (step act s)) = finishesOf t (calls s)"
proof (cases act)
  case (Construct opts)
  then show ?thesis using assms by (simp add: construct_def)
next
  case (SetupOnce g h d f)
  then show ?thesis using setupOnce_unreferenced [OF assms] by simp
next
  case (StartIdleTransaction nm c)
  then show ?thesis using startIdleTransaction_unreferenced [OF assms] by simp
next
  case FinishIdleTransaction
  then show ?thesis using finishIdleTransaction_unreferenced [OF assms] by simp
next
  case (SetTransactionStatus st)
  then show ?thesis using assms
    by (simp add: setTransactionStatus_def record_call_def finishesOf_def split: option.splits)
next
  case (UpdateTransactionName nm)
  then show ?thesis using assms
    by (simp add: updateTransactionName_def record_call_def finishesOf_def
          split: option.splits hubGetter.splits)
next
  case (PushActivity nm c a)
  then show ?thesis using pushActivity_unreferenced [OF assms] by simp
next
  case (PopActivity i d)
  then show ?thesis using popActivity_unreferenced [OF assms] by simp
next
  case (FireTimer h)
  then show ?thesis using fireTimer_unreferenced [OF assms] by simp
next
  case (VisibilityChange hidden)
  then show ?thesis using assms by (simp add: onVisibilityChange_def unreferenced_def)
next
  case (HistoryChange href)
  then show ?thesis
    using assms startIdleTransaction_unreferenced [OF assms]
    by (simp add: historyCallback_def split: option.splits)
next
  case (ProcessEvent self e)
  then show ?thesis
    using assms notifyEventProcessors_state [of "eventProcessors s" self e s] by auto
next
  case (Tick dt)
  then show ?thesis using assms by (simp add: tick_def)
qed

lemma run_unreferenced:
  "unreferenced t s \<Longrightarrow>
   unreferenced t (run acts s) \<and> finishesOf t (calls (run acts s)) = finishesOf t (calls s)"
proof (induction acts arbitrary: s)
  case Nil
  then show ?case by simp
next
  case (Cons act acts)
  from step_unreferenced [OF Cons.prems, of act]
  have u: "unreferenced t (step act s)"
    and c: "finishesOf t (calls (step act s)) = finishesOf t (calls s)" by simp_all
  from Cons.IH [OF u] c show ?case by simp
qed

lemma startIdleTransaction_visibilityListener [simp]:
  "visibilityListener (snd (startIdleTransaction nm c s)) = visibilityListener s"
proof (cases "fst (isEnabled s)")
  case False
  then show ?thesis by (simp add: startIdleTransaction_disabled)
next
  case en: True
  show ?thesis
  proof (cases "getCurrentHub s = Some ReturnsHub")
    case False
    then show ?thesis using en by (simp add: startIdleTransaction_nohub)
  next
    case True
    show ?thesis by (simp add: startIdleTransaction_success [OF en True])
  qed
qed

lemma setupOnce_visibilityListener:
  "visibilityListener (snd (setupOnce getter href hasDocument nativeFetch s)) =
     (visibilityListener s \<or>
      (fst (isEnabled (s\<lparr>getCurrentHub := Some getter\<rparr>)) \<and> hasDocument \<and>
       (case options s of None \<Rightarrow> False | Some opt \<Rightarrow> discardBackgroundSpans opt)))"
  by (auto simp: setupOnce_def split_def Let_def addInstrumentationHandler_def
        split: option.splits)

subsection \<open>Background discard (C7)\<close>

text \<open>
  C7. \<^verbatim>\<open>setupOnce\<close> installs the visibility listener when tracing is enabled, the discard
  policy is on and there is a document. With the listener installed and a transaction \<open>t\<close>
  active, a became-hidden signal clears the active-transaction reference and the whole
  registry, makes no call on any span and leaves the timers alone. From then on no run of
  the controller ever calls \<^verbatim>\<open>finish\<close> on \<open>t\<close> again, and a pending finish timer that
  fires only leaves the timer table.
\<close>

theorem background_discard:
  "visibilityListener (snd (setupOnce getter href hasDocument nativeFetch s0)) =
     (visibilityListener s0 \<or>
      (fst (isEnabled (s0\<lparr>getCurrentHub := Some getter\<rparr>)) \<and> hasDocument \<and>
       (case options s0 of None \<Rightarrow> False | Some opt \<Rightarrow> discardBackgroundSpans opt)))
   \<and> (visibilityListener s \<and> activeTransaction s = Some t \<and> t < nextSpan s \<longrightarrow>
        activeTransaction (step (VisibilityChange True) s) = None
        \<and> activities (step (VisibilityChange True) s) = []
        \<and> calls (step (VisibilityChange True) s) = calls s
        \<and> timers (step (VisibilityChange True) s) = timers s
        \<and> finishesOf t (calls (run acts (step (VisibilityChange True) s))) = finishesOf t (calls s)
        \<and> (find (\<lambda>x. handle x = h) (timers s) = Some tm \<and> callback tm = CbFinishIdle \<longrightarrow>
             fireTimer h (step (VisibilityChange True) s) =
               (step (VisibilityChange True) s)\<lparr>timers := filter (\<lambda>x. handle x \<noteq> h) (timers s)\<rparr>))"
proof -
  have discard:
    "activeTransaction (step (VisibilityChange True) s) = None
     \<and> activities (step (VisibilityChange True) s) = []
     \<and> calls (step (VisibilityChange True) s) = calls s
     \<and> timers (step (VisibilityChange True) s) = timers s
     \<and> finishesOf t (calls (run acts (step (VisibilityChange True) s))) = finishesOf t (calls s)
     \<and> (find (\<lambda>x. handle x = h) (timers s) = Some tm \<and> callback tm = CbFinishIdle \<longrightarrow>
          fireTimer h (step (VisibilityChange True) s) =
            (step (VisibilityChange True) s)\<lparr>timers := filter (\<lambda>x. handle x \<noteq> h) (timers s)\<rparr>)"
    if l: "visibilityListener s" and a: "activeTransaction s = Some t" and f: "t < nextSpan s"
  proof -
    define s' where "s' = step (VisibilityChange True) s"
    have s': "s' = s\<lparr>activeTransaction := None, activities := []\<rparr>"
      using l a by (simp add: s'_def onVisibilityChange_def)
    have u: "unreferenced t s'"
      using f by (simp add: s' unreferenced_def)
    have ever: "finishesOf t (calls (run acts s')) = finishesOf t (calls s)"
      using run_unreferenced [OF u, of acts] by (simp add: s')
    have fire: "fireTimer h s' = s'\<lparr>timers := filter (\<lambda>x. handle x \<noteq> h) (timers s)\<rparr>"
      if "find (\<lambda>x. handle x = h) (timers s) = Some tm" "callback tm = CbFinishIdle"
      using that by (simp add: fireTimer_def s' finishIdleTransaction_def)
    show ?thesis
      using ever fire unfolding s'_def [symmetric] by (simp add: s')
  qed
  show ?thesis
    using discard setupOnce_visibilityListener [of getter href hasDocument nativeFetch s0]
    by blast
qed

theorem background_discard_witness:
  "visibilityListener pageloadState
   \<and> activeTransaction (step (VisibilityChange True) inflightState) = None
   \<and> activities (step (VisibilityChange True) inflightState) = []
   \<and> calls (step (VisibilityChange True) inflightState) = calls inflightState
   \<and> finishesOf 0 (calls (run [FireTimer 1, Tick 500, StartIdleTransaction ''/next'' None,
                                  FinishIdleTransaction]
                             (step (VisibilityChange True) inflightState))) = []
   \<and> fireTimer 2 (step (VisibilityChange True) idleState) =
       (step (VisibilityChange True) idleState)\<lparr>timers := []\<rparr>"
proof -
  have i: "visibilityListener inflightState" "activeTransaction inflightState = Some 0"
    "nextSpan inflightState = 2"
    "finishesOf 0 (calls inflightState) = []"
    by (simp_all add: inflightState_eq pageloadState_eq finishesOf_def)
  have j: "visibilityListener idleState" "activeTransaction idleState = Some 0"
    "nextSpan idleState = 1"
    "timers idleState = [\<lparr>handle = 2, scheduledAt = 500, delay = Some 500, callback = CbFinishIdle\<rparr>]"
    by (simp_all add: idleState_eq pageloadState_eq)
  show ?thesis
    using background_discard [of ReturnsHub "Some ''http://localhost/''" True True
        "construct defaults (initial (\<lambda>n. 0))" inflightState 0
        "[FireTimer 1, Tick 500, StartIdleTransaction ''/next'' None, FinishIdleTransaction]"
        1 "\<lparr>handle = 1, scheduledAt = 0, delay = Some 500, callback = CbPopActivity 1 None\<rparr>"]
      background_discard [of ReturnsHub "Some ''http://localhost/''" True True
        "construct defaults (initial (\<lambda>n. 0))" idleState 0 "[]"
        2 "\<lparr>handle = 2, scheduledAt = 500, delay = Some 500, callback = CbFinishIdle\<rparr>"]
    by (simp add: i j pageloadState_eq)
qed

subsection \<open>The event filter (C4)\<close>

text \<open>
  C4, as the code has it. When the hub getter returns a hub that has the integration and
  tracing is enabled, a transaction event whose \<open>timestamp\<close> and \<open>start_timestamp\<close> are
  both present and not \<open>0\<close> is dropped exactly when \<open>maxTransactionDuration \<noteq> 0\<close> and its
  duration is above \<open>maxTransactionDuration\<close> or negative; otherwise it is passed on
  unchanged. With \<open>maxTransactionDuration = 0\<close> and a hub, every event is passed on. An
  event is passed on when the hub lacks the integration or tracing is disabled, and it is
  never dropped when one of the two timestamps is missing or \<open>0\<close>. When the hub getter
  returns no hub, the processor throws.
\<close>

theorem eventProcessor_filter:
  "(fst (isEnabled s) \<and> options s = Some opt \<and> type e = Some ''transaction'' \<and>
      timestamp e = Some t1 \<and> start_timestamp e = Some t0 \<and> t1 \<noteq> 0 \<and> t0 \<noteq> 0 \<longrightarrow>
      (fst (eventProcessor ReturnsHub True e s) = Inr None \<longleftrightarrow>
         maxTransactionDuration opt \<noteq> 0 \<and>
         (t1 - t0 > maxTransactionDuration opt \<or> t1 - t0 < 0))
      \<and> (fst (eventProcessor ReturnsHub True e s) \<noteq> Inr None \<longrightarrow>
           fst (eventProcessor ReturnsHub True e s) = Inr (Some e)))
   \<and> (options s = Some opt \<and> maxTransactionDuration opt = 0 \<longrightarrow>
        fst (eventProcessor ReturnsHub self e s) = Inr (Some e))
   \<and> (\<not> self \<or> \<not> fst (isEnabled s) \<longrightarrow>
        fst (eventProcessor ReturnsHub self e s) = Inr (Some e))
   \<and> (timestamp e = None \<or> timestamp e = Some 0 \<or>
        start_timestamp e = None \<or> start_timestamp e = Some 0 \<longrightarrow>
        fst (eventProcessor getter self e s) \<noteq> Inr None)
   \<and> eventProcessor ReturnsNothing self e s = (Inl TypeError, s)"
proof -
  have nohub: "eventProcessor ReturnsNothing self e s = (Inl TypeError, s)"
    by (simp add: eventProcessor_def)
  have hub:
    "(fst (isEnabled s) \<and> options s = Some opt \<and> type e = Some ''transaction'' \<and>
        timestamp e = Some t1 \<and> start_timestamp e = Some t0 \<and> t1 \<noteq> 0 \<and> t0 \<noteq> 0 \<longrightarrow>
        (fst (eventProcessor ReturnsHub True e s) = Inr None \<longleftrightarrow>
           maxTransactionDuration opt \<noteq> 0 \<and>
           (t1 - t0 > maxTransactionDuration opt \<or> t1 - t0 < 0))
        \<and> (fst (eventProcessor ReturnsHub True e s) \<noteq> Inr None \<longrightarrow>
             fst (eventProcessor ReturnsHub True e s) = Inr (Some e)))
     \<and> (options s = Some opt \<and> maxTransactionDuration opt = 0 \<longrightarrow>
          fst (eventProcessor ReturnsHub self e s) = Inr (Some e))
     \<and> (\<not> self \<or> \<not> fst (isEnabled s) \<longrightarrow>
          fst (eventProcessor ReturnsHub self e s) = Inr (Some e))
     \<and> (timestamp e = None \<or> timestamp e = Some 0 \<or>
          start_timestamp e = None \<or> start_timestamp e = Some 0 \<longrightarrow>
          fst (eventProcessor ReturnsHub self e s) \<noteq> Inr None)"
    by (auto simp: eventProcessor_def split_def Let_def truthy_def split: option.splits)
  have never: "fst (eventProcessor getter self e s) \<noteq> Inr None"
    if "timestamp e = None \<or> timestamp e = Some 0 \<or>
        start_timestamp e = None \<or> start_timestamp e = Some 0"
    using that hub nohub by (cases getter) simp_all
  show ?thesis
    using hub nohub never by blast
qed

theorem eventProcessor_filter_witness:
  "fst (eventProcessor ReturnsHub True
          \<lparr>type = Some ''transaction'', timestamp = Some 1601, start_timestamp = Some 1000\<rparr>
          pageloadState) = Inr None
   \<and> fst (eventProcessor ReturnsHub True
          \<lparr>type = Some ''transaction'', timestamp = Some 1599, start_timestamp = Some 1000\<rparr>
          pageloadState) =
       Inr (Some \<lparr>type = Some ''transaction'', timestamp = Some 1599, start_timestamp = Some 1000\<rparr>)
   \<and> fst (eventProcessor ReturnsHub True
          \<lparr>type = Some ''transaction'', timestamp = Some 11000, start_timestamp = Some 1000\<rparr>
          (construct (defaults\<lparr>maxTransactionDuration := 0\<rparr>) pageloadState)) =
       Inr (Some \<lparr>type = Some ''transaction'', timestamp = Some 11000, start_timestamp = Some 1000\<rparr>)"
proof -
  have o: "options (construct (defaults\<lparr>maxTransactionDuration := 0\<rparr>) pageloadState) =
             Some (defaults\<lparr>maxTransactionDuration := 0\<rparr>)"
    by (simp add: construct_def)
  show ?thesis
    using
      eventProcessor_filter [of pageloadState defaults
        "\<lparr>type = Some ''transaction'', timestamp = Some 1601, start_timestamp = Some 1000\<rparr>"
        1601 1000 True ReturnsHub]
      eventProcessor_filter [of pageloadState defaults
        "\<lparr>type = Some ''transaction'', timestamp = Some 1599, start_timestamp = Some 1000\<rparr>"
        1599 1000 True ReturnsHub]
      eventProcessor_filter [of "construct (defaults\<lparr>maxTransactionDuration := 0\<rparr>) pageloadState"
        "defaults\<lparr>maxTransactionDuration := 0\<rparr>"
        "\<lparr>type = Some ''transaction'', timestamp = Some 11000, start_timestamp = Some 1000\<rparr>"
        11000 1000 True ReturnsHub]
    by (simp add: pageloadState_gate defaults_max o)
qed

text \<open>
  The claim as stated has every transaction event with timestamps filtered, and every
  event passed on when the maximum is \<open>0\<close>. With \<open>maxTransactionDuration = 600\<close>, an
  event of 700 s is passed on when the current hub has no Tracing integration, and also
  when its \<open>start_timestamp\<close> is \<open>0\<close>. With \<open>maxTransactionDuration = 0\<close>, the processor
  whose hub getter returns no hub throws instead of passing the event on.
\<close>

theorem eventProcessor_filter_counterexample:
  "map_option maxTransactionDuration (options pageloadState) = Some 600
   \<and> fst (eventProcessor ReturnsHub False
          \<lparr>type = Some ''transaction'', timestamp = Some 1700, start_timestamp = Some 1000\<rparr>
          pageloadState) =
       Inr (Some \<lparr>type = Some ''transaction'', timestamp = Some 1700, start_timestamp = Some 1000\<rparr>)
   \<and> fst (eventProcessor ReturnsHub True
          \<lparr>type = Some ''transaction'', timestamp = Some 700, start_timestamp = Some 0\<rparr>
          pageloadState) =
       Inr (Some \<lparr>type = Some ''transaction'', timestamp = Some 700, start_timestamp = Some 0\<rparr>)
   \<and> eventProcessors hublessState = [ReturnsHub, ReturnsNothing]
   \<and> map_option maxTransactionDuration
        (options (construct (defaults\<lparr>maxTransactionDuration := 0\<rparr>) hublessState)) = Some 0
   \<and> fst (eventProcessor ReturnsNothing True
          \<lparr>type = Some ''transaction'', timestamp = Some 11000, start_timestamp = Some 1000\<rparr>
          (construct (defaults\<lparr>maxTransactionDuration := 0\<rparr>) hublessState)) = Inl TypeError"
proof -
  have h: "eventProcessors hublessState = [ReturnsHub, ReturnsNothing]"
    by (simp add: hublessState_eq)
  show ?thesis
    by (simp add: pageloadState_gate defaults_max eventProcessor_def truthy_def h construct_def)
qed

subsection \<open>Well-formed states are all that runs reach\<close>

lemma controllerInv_update [simp]:
  "controllerInv (s\<lparr>getCurrentHub := g\<rparr>) = controllerInv s"
  "controllerInv (s\<lparr>handlers := hs\<rparr>) = controllerInv s"
  "controllerInv (s\<lparr>visibilityListener := v\<rparr>) = controllerInv s"
  "controllerInv (s\<lparr>eventProcessors := e\<rparr>) = controllerInv s"
  "controllerInv (s\<lparr>options := opt\<rparr>) = controllerInv s"
  "controllerInv (s\<lparr>now := n\<rparr>) = controllerInv s"
  "controllerInv (s\<lparr>calls := cs\<rparr>) = controllerInv s"
  "controllerInv (s\<lparr>timers := ts\<rparr>) = controllerInv s"
  "controllerInv (snd (isEnabled s)) = controllerInv s"
  by (simp_all add: controllerInv_def)

lemma controllerInv_initial: "controllerInv (initial rnd)"
  by (simp add: controllerInv_def initial_def)

lemma popActivity_counter [simp]:
  "currentIndex (popActivity ident d s) = currentIndex s"
  "scopeSpan (popActivity ident d s) = scopeSpan s"
  by (simp_all add: popActivity_def split_def Let_def host_defs split: option.splits)

lemma controllerInv_popActivity:
  "controllerInv s \<Longrightarrow> controllerInv (popActivity ident d s)"
  by (simp add: controllerInv_def)

lemma controllerInv_pushActivity:
  assumes "controllerInv s"
  shows "controllerInv (snd (pushActivity nm c a s))"
proof (cases nm c a s rule: pushActivity_cases)
  case guard
  then show ?thesis using assms by simp
next
  case marker
  show ?thesis using assms by (simp add: pushActivity_marker [OF marker] controllerInv_def)
next
  case (span ctx)
  show ?thesis using assms by (simp add: pushActivity_span [OF span] controllerInv_def)
next
  case (nohub ctx)
  show ?thesis using assms by (simp add: pushActivity_nohub [OF nohub] controllerInv_def)
qed

lemma controllerInv_finishIdleTransaction [simp]:
  "controllerInv (finishIdleTransaction s) = controllerInv s"
  by (simp add: finishIdleTransaction_eq)

lemma controllerInv_startIdleTransaction:
  assumes "controllerInv s"
  shows "controllerInv (snd (startIdleTransaction nm c s))"
proof (cases "fst (isEnabled s)")
  case False
  then show ?thesis using assms by (simp add: startIdleTransaction_disabled)
next
  case en: True
  show ?thesis
  proof (cases "getCurrentHub s = Some ReturnsHub")
    case False
    then show ?thesis using assms en by (simp add: startIdleTransaction_nohub)
  next
    case True
    show ?thesis
      using assms by (simp add: startIdleTransaction_success [OF en True] controllerInv_def)
  qed
qed

lemma controllerInv_fireTimer:
  assumes "controllerInv s"
  shows "controllerInv (fireTimer h s)"
proof (cases "find (\<lambda>t. handle t = h) (timers s)")
  case None
  then show ?thesis using assms by (simp add: fireTimer_def)
next
  case (Some x)
  then show ?thesis
    using assms
    by (cases "callback x") (simp_all add: fireTimer_def controllerInv_popActivity)
qed

lemma controllerInv_step:
  assumes "controllerInv s"
  shows "controllerInv (step act s)"
proof (cases act)
  case (Construct opts)
  then show ?thesis using assms by (simp add: construct_def)
next
  case (SetupOnce g h d f)
  then show ?thesis
    using assms
    by (simp add: setupOnce_def split_def Let_def addInstrumentationHandler_def
          controllerInv_startIdleTransaction split: option.splits)
next
  case (StartIdleTransaction nm c)
  then show ?thesis using assms by (simp add: controllerInv_startIdleTransaction)
next
  case FinishIdleTransaction
  then show ?thesis using assms by simp
next
  case (SetTransactionStatus st)
  then show ?thesis using assms
    by (simp add: setTransactionStatus_def record_call_def split: option.splits)
next
  case (UpdateTransactionName nm)
  then show ?thesis using assms
    by (simp add: updateTransactionName_def record_call_def split: option.splits hubGetter.splits)
next
  case (PushActivity nm c a)
  then show ?thesis using assms by (simp add: controllerInv_pushActivity)
next
  case (PopActivity i d)
  then show ?thesis using assms by (simp add: controllerInv_popActivity)
next
  case (FireTimer h)
  then show ?thesis using assms by (simp add: controllerInv_fireTimer)
next
  case (VisibilityChange hidden)
  then show ?thesis using assms by (simp add: onVisibilityChange_def controllerInv_def)
next
  case (HistoryChange href)
  then show ?thesis
    using assms
    by (simp add: historyCallback_def controllerInv_startIdleTransaction split: option.splits)
next
  case (ProcessEvent self e)
  then show ?thesis
    using assms notifyEventProcessors_state [of "eventProcessors s" self e s] by auto
next
  case (Tick dt)
  then show ?thesis using assms by (simp add: tick_def)
qed

lemma controllerInv_run:
  "controllerInv s \<Longrightarrow> controllerInv (run acts s)"
  by (induction acts arbitrary: s) (simp_all add: controllerInv_step)

lemma controllerInv_reachable: "controllerInv (run acts (initial rnd))"
  by (intro controllerInv_run controllerInv_initial)

subsection \<open>The result of \<open>pushActivity\<close> (C6)\<close>

text \<open>
  C6, as the code has it. In every state \<open>s\<close> that a run of the controller reaches from
  its initial state, \<open>pushActivity\<close> returns \<open>0\<close> exactly when tracing is disabled or no
  transaction is active, and then changes nothing beyond the evaluation of the gate.
  Otherwise it returns the current value of the id counter, which is positive, and
  advances the counter, and
  \<^item> without a span context, or with no hub getter installed, it stores a span-less marker
    under that id;
  \<^item> with a span context and a hub, it stores an activity holding the span that the hub
    starts, a child of the active transaction;
  \<^item> with a span context and a hub getter that returns no hub, it stores nothing, although
    the id is still allocated and returned.
\<close>

theorem pushActivity_result:
  "s = run acts (initial rnd) \<Longrightarrow>
     (fst (pushActivity nm c a s) = 0 \<longleftrightarrow> \<not> fst (isEnabled s) \<or> activeTransaction s = None)
   \<and> (\<not> fst (isEnabled s) \<or> activeTransaction s = None \<longrightarrow>
        pushActivity nm c a s = (0, snd (isEnabled s)))
   \<and> (fst (isEnabled s) \<and> activeTransaction s \<noteq> None \<longrightarrow>
        fst (pushActivity nm c a s) = currentIndex s
        \<and> 0 < fst (pushActivity nm c a s)
        \<and> currentIndex (snd (pushActivity nm c a s)) = Suc (currentIndex s)
        \<and> (c = None \<or> getCurrentHub s = None \<longrightarrow>
             activities (snd (pushActivity nm c a s)) =
               AList.update (currentIndex s) \<lparr>name = nm, span = None\<rparr> (activities s)
             \<and> calls (snd (pushActivity nm c a s)) = calls s)
        \<and> (c = Some ctx \<and> getCurrentHub s = Some ReturnsHub \<longrightarrow>
             activities (snd (pushActivity nm c a s)) =
               AList.update (currentIndex s) \<lparr>name = nm, span = Some (nextSpan s)\<rparr> (activities s)
             \<and> calls (snd (pushActivity nm c a s)) =
                 calls s @ [HubStartSpan ctx False (activeTransaction s) (nextSpan s)])
        \<and> (c = Some ctx \<and> getCurrentHub s = Some ReturnsNothing \<longrightarrow>
             activities (snd (pushActivity nm c a s)) = activities s
             \<and> calls (snd (pushActivity nm c a s)) = calls s))"
proof -
  assume "s = run acts (initial rnd)"
  then have inv: "controllerInv s" by (simp add: controllerInv_reachable)
  then have pos: "0 < currentIndex s"
    and scope: "activeTransaction s \<noteq> None \<Longrightarrow> scopeSpan s = activeTransaction s"
    by (simp_all add: controllerInv_def)
  show ?thesis
  proof (cases nm c a s rule: pushActivity_cases)
    case guard
    then show ?thesis by auto
  next
    case marker
    from pushActivity_marker [OF marker, of nm a] marker pos show ?thesis by auto
  next
    case (span ctx')
    from pushActivity_span [OF span, of nm a] span pos scope show ?thesis by auto
  next
    case (nohub ctx')
    from pushActivity_nohub [OF nohub, of nm a] nohub pos show ?thesis by auto
  qed
qed

theorem pushActivity_result_witness:
  "fst (pushActivity ''xhr'' (Some httpRequest) None pageloadState) = 2
   \<and> activities (snd (pushActivity ''xhr'' (Some httpRequest) None pageloadState)) =
       [(1, \<lparr>name = ''idleTransactionStarted'', span = None\<rparr>), (2, \<lparr>name = ''xhr'', span = Some 1\<rparr>)]
   \<and> calls (snd (pushActivity ''xhr'' (Some httpRequest) None pageloadState)) =
       calls pageloadState @ [HubStartSpan httpRequest False (Some 0) 1]
   \<and> pushActivity ''xhr'' (Some httpRequest) None (initial (\<lambda>n. 0)) = (0, initial (\<lambda>n. 0))"
proof -
  have i: "isEnabled (initial (\<lambda>n. 0)) = (False, initial (\<lambda>n. 0))"
    by (simp add: isEnabled_def initial_def)
  have r: "initial (\<lambda>n. 0) = run [] (initial (\<lambda>n. 0))"
    by simp
  show ?thesis
    using pushActivity_result [OF pageloadState_def, of "''xhr''" "Some httpRequest" None httpRequest]
      pushActivity_result [OF r, of "''xhr''" "Some httpRequest" None httpRequest]
    by (simp add: pageloadState_gate pageloadState_fields i)
qed

text \<open>
  The claim as stated has an activity with a child span stored whenever a span context is
  given. When the hub getter returns no hub, id \<open>2\<close> is returned and nothing is stored
  under it.
\<close>

theorem pushActivity_result_counterexample:
  "hublessState =
     run [Construct defaults, SetupOnce ReturnsHub (Some ''http://localhost/'') True True,
          SetupOnce ReturnsNothing None False False] (initial (\<lambda>n. 0))
   \<and> fst (isEnabled hublessState) \<and> activeTransaction hublessState = Some 0
   \<and> fst (pushActivity ''xhr'' (Some httpRequest) None hublessState) = 2
   \<and> map_of (activities (snd (pushActivity ''xhr'' (Some httpRequest) None hublessState))) 2 = None"
proof -
  have "hublessState =
     run [Construct defaults, SetupOnce ReturnsHub (Some ''http://localhost/'') True True,
          SetupOnce ReturnsNothing None False False] (initial (\<lambda>n. 0))"
    by (simp add: hublessState_def pageloadState_def)
  then show ?thesis
    by (simp add: pushActivity_nohub [of hublessState "Some httpRequest" httpRequest]
          hublessState_gate)
qed

end
